theory Spec2Isabelle
  imports Main "HOL-Library.Word"
begin

unbundle bit_operations_syntax

section \<open>Byte buffers and \<open>struct.unpack_from\<close>\<close>

text \<open>
  The survey script \<^verbatim>\<open>survey_anim.py\<close> decodes three binary formats from \<^verbatim>\<open>bytes\<close>
  objects. A buffer is a list of 8-bit words. Python integers are unbounded, so every
  value the script computes is an \<open>int\<close>; \<open>len(data)\<close> is \<open>len_bytes data\<close>.
\<close>

type_synonym byte = "8 word"
type_synonym bytes = "byte list"

datatype error = StructError | IndexError

definition len_bytes :: "bytes \<Rightarrow> int" where
  "len_bytes data = int (length data)"

text \<open>\<open>range(n)\<close> for a Python integer \<open>n\<close>: empty when \<open>n \<le> 0\<close>.\<close>

definition py_range :: "int \<Rightarrow> int list" where
  "py_range n = map int [0..<nat n]"

text \<open>A little-endian unsigned value, least significant byte first.\<close>

fun le_uint :: "bytes \<Rightarrow> int" where
  "le_uint [] = 0"
| "le_uint (b # bs) = uint b + 256 * le_uint bs"

text \<open>
  The bytes that \<open>struct.unpack_from(fmt, data, offset)\<close> decodes, for a format of
  \<open>nbytes\<close> bytes. CPython counts a negative offset from the end of the buffer and raises
  \<open>struct.error\<close> whenever the \<open>nbytes\<close> bytes do not lie inside the buffer.
\<close>

definition struct_bytes :: "nat \<Rightarrow> bytes \<Rightarrow> int \<Rightarrow> error + bytes" where
  "struct_bytes nbytes data offset =
     (let n = len_bytes data in
      if offset < 0 then
        (if offset + int nbytes > 0 then Inl StructError
         else if offset + n < 0 then Inl StructError
         else Inr (take nbytes (drop (nat (offset + n)) data)))
      else if n - offset < int nbytes then Inl StructError
      else Inr (take nbytes (drop (nat offset) data)))"

text \<open>Format \<open>"<I"\<close>: one unsigned 32-bit value.\<close>

definition unpack_I :: "bytes \<Rightarrow> int \<Rightarrow> error + int" where
  "unpack_I data offset =
     (case struct_bytes 4 data offset of
        Inl e \<Rightarrow> Inl e
      | Inr bs \<Rightarrow> Inr (le_uint bs))"

text \<open>Format \<open>"<i"\<close>: one signed 32-bit value (two's complement).\<close>

definition unpack_i :: "bytes \<Rightarrow> int \<Rightarrow> error + int" where
  "unpack_i data offset =
     (case struct_bytes 4 data offset of
        Inl e \<Rightarrow> Inl e
      | Inr bs \<Rightarrow> Inr (let u = le_uint bs in if u < 2 ^ 31 then u else u - 2 ^ 32))"

text \<open>Format \<open>"<h"\<close>: one signed 16-bit value.\<close>

definition unpack_h :: "bytes \<Rightarrow> int \<Rightarrow> error + int" where
  "unpack_h data offset =
     (case struct_bytes 2 data offset of
        Inl e \<Rightarrow> Inl e
      | Inr bs \<Rightarrow> Inr (let u = le_uint bs in if u < 2 ^ 15 then u else u - 2 ^ 16))"

text \<open>Formats \<open>"<III"\<close> and \<open>"<IIII"\<close>: one read of 12 or 16 bytes.\<close>

definition unpack_III :: "bytes \<Rightarrow> int \<Rightarrow> error + (int \<times> int \<times> int)" where
  "unpack_III data offset =
     (case struct_bytes 12 data offset of
        Inl e \<Rightarrow> Inl e
      | Inr bs \<Rightarrow>
          Inr (le_uint (take 4 bs), le_uint (take 4 (drop 4 bs)), le_uint (take 4 (drop 8 bs))))"

definition unpack_IIII :: "bytes \<Rightarrow> int \<Rightarrow> error + (int \<times> int \<times> int \<times> int)" where
  "unpack_IIII data offset =
     (case struct_bytes 16 data offset of
        Inl e \<Rightarrow> Inl e
      | Inr bs \<Rightarrow>
          Inr (le_uint (take 4 bs), le_uint (take 4 (drop 4 bs)),
               le_uint (take 4 (drop 8 bs)), le_uint (take 4 (drop 12 bs))))"

section \<open>The LMO animation parser\<close>

text \<open>Class \<open>AnimInfo\<close>: the decoded size table of one geometry object.\<close>

record AnimInfo =
  bone_size :: int
  mat_size :: int
  mtlopac_sizes :: "(int \<times> int) list"
  texuv_sizes :: "(int \<times> int \<times> int) list"
  teximg_sizes :: "(int \<times> int \<times> int) list"

definition OBJ_TYPE_GEOMETRY :: int where
  "OBJ_TYPE_GEOMETRY = 1"

text \<open>
  The three locals \<open>n_entries\<close>, \<open>has_mtlopac\<close> and \<open>mtlopac_count\<close> that
  \<open>parse_lmo_animations\<close> sets from the file version before its loop.
\<close>

record header_shape =
  n_entries :: int
  has_mtlopac :: bool
  mtlopac_count :: int

definition shape_of_version :: "int \<Rightarrow> header_shape" where
  "shape_of_version lmo_version =
     (if lmo_version \<ge> 0x1005
      then \<lparr>n_entries = 146, has_mtlopac = True, mtlopac_count = 16\<rparr>
      else \<lparr>n_entries = 130, has_mtlopac = False, mtlopac_count = 0\<rparr>)"

definition header_bytes :: "header_shape \<Rightarrow> int" where
  "header_bytes sh = n_entries sh * 4"

text \<open>
  The loop \<open>for s in range(mtlopac_count)\<close>: reads the value at \<open>off + s * 4\<close> and
  appends \<open>(s, val)\<close> when it is positive.
\<close>

fun read_mtlopac :: "bytes \<Rightarrow> int \<Rightarrow> int list \<Rightarrow> (int \<times> int) list \<Rightarrow> error + (int \<times> int) list" where
  "read_mtlopac data off [] acc = Inr acc"
| "read_mtlopac data off (s # ss) acc =
     (case unpack_I data (off + s * 4) of
        Inl e \<Rightarrow> Inl e
      | Inr val \<Rightarrow> read_mtlopac data off ss (if val > 0 then acc @ [(s, val)] else acc))"

text \<open>
  The nested loops \<open>for s in range(16): for t in range(4)\<close> over a 16 by 4 grid: the
  index pairs are visited in row order, the value at \<open>off + (s * 4 + t) * 4\<close> is read and
  \<open>(s, t, val)\<close> is appended when it is positive.
\<close>

definition grid_indices :: "(int \<times> int) list" where
  "grid_indices = List.product (py_range 16) (py_range 4)"

fun read_grid :: "bytes \<Rightarrow> int \<Rightarrow> (int \<times> int) list \<Rightarrow> (int \<times> int \<times> int) list
    \<Rightarrow> error + (int \<times> int \<times> int) list" where
  "read_grid data off [] acc = Inr acc"
| "read_grid data off ((s, t) # sts) acc =
     (case unpack_I data (off + (s * 4 + t) * 4) of
        Inl e \<Rightarrow> Inl e
      | Inr val \<Rightarrow> read_grid data off sts (if val > 0 then acc @ [(s, t, val)] else acc))"

text \<open>
  Reading the size array at \<open>anim_offset\<close> into a fresh \<open>AnimInfo\<close>
  (source lines 222 to 249).
\<close>

definition read_size_array :: "bytes \<Rightarrow> header_shape \<Rightarrow> int \<Rightarrow> error + AnimInfo" where
  "read_size_array data sh anim_offset =
     (let off = anim_offset in
      case unpack_I data off of
        Inl e \<Rightarrow> Inl e
      | Inr bone \<Rightarrow>
      (case unpack_I data (off + 4) of
        Inl e \<Rightarrow> Inl e
      | Inr mat \<Rightarrow>
      (let off = off + 8 in
       case (if has_mtlopac sh
             then (case read_mtlopac data off (py_range (mtlopac_count sh)) [] of
                     Inl e \<Rightarrow> Inl e
                   | Inr ms \<Rightarrow> Inr (ms, off + mtlopac_count sh * 4))
             else Inr ([], off)) of
         Inl e \<Rightarrow> Inl e
       | Inr (ms, off) \<Rightarrow>
       (case read_grid data off grid_indices [] of
         Inl e \<Rightarrow> Inl e
       | Inr uvs \<Rightarrow>
       (let off = off + 16 * 4 * 4 in
        case read_grid data off grid_indices [] of
          Inl e \<Rightarrow> Inl e
        | Inr imgs \<Rightarrow>
            Inr \<lparr>bone_size = bone, mat_size = mat, mtlopac_sizes = ms,
                 texuv_sizes = uvs, teximg_sizes = imgs\<rparr>)))))"

text \<open>The sum \<open>total\<close> of source lines 252 to 255.\<close>

definition total_of :: "AnimInfo \<Rightarrow> int" where
  "total_of info =
     bone_size info + mat_size info
     + sum_list (map (\<lambda>(_, sz). sz) (mtlopac_sizes info))
     + sum_list (map (\<lambda>(_, _, sz). sz) (texuv_sizes info))
     + sum_list (map (\<lambda>(_, _, sz). sz) (teximg_sizes info))"

text \<open>
  One iteration of the loop over the object table, after the check that the 12-byte
  entry at \<open>tbl_off\<close> fits: \<open>Inr None\<close> is a \<open>continue\<close> that appends nothing,
  \<open>Inr (Some info)\<close> is an iteration that ends with \<open>results.append((i, info))\<close>.
\<close>

definition lmo_object :: "bytes \<Rightarrow> header_shape \<Rightarrow> int \<Rightarrow> error + AnimInfo option" where
  "lmo_object data sh tbl_off =
     (case unpack_III data tbl_off of
        Inl e \<Rightarrow> Inl e
      | Inr (typ, addr, size') \<Rightarrow>
          if typ \<noteq> OBJ_TYPE_GEOMETRY then Inr None
          else if addr + 116 > len_bytes data then Inr None
          else
            (let sizes_offset = addr + 100 in
             if sizes_offset + 16 > len_bytes data then Inr None
             else
               (case unpack_IIII data sizes_offset of
                  Inl e \<Rightarrow> Inl e
                | Inr (mtl_size, mesh_size, helper_size, anim_size) \<Rightarrow>
                    if anim_size = 0 then Inr None
                    else
                      (let anim_offset = addr + 116 + mtl_size + mesh_size + helper_size in
                       if anim_offset + header_bytes sh > len_bytes data then Inr None
                       else
                         (case read_size_array data sh anim_offset of
                            Inl e \<Rightarrow> Inl e
                          | Inr info \<Rightarrow>
                              (let expected = header_bytes sh + total_of info in
                               if expected \<noteq> anim_size then Inr None
                               else if texuv_sizes info \<noteq> [] \<or> teximg_sizes info \<noteq> []
                                       \<or> mtlopac_sizes info \<noteq> []
                               then Inr (Some info)
                               else Inr None))))))"

text \<open>The loop \<open>for i in range(obj_num)\<close> with its \<open>break\<close>.\<close>

fun lmo_loop :: "bytes \<Rightarrow> header_shape \<Rightarrow> int list \<Rightarrow> (int \<times> AnimInfo) list
    \<Rightarrow> error + (int \<times> AnimInfo) list" where
  "lmo_loop data sh [] results = Inr results"
| "lmo_loop data sh (i # is) results =
     (let tbl_off = 8 + i * 12 in
      if tbl_off + 12 > len_bytes data then Inr results
      else
        (case lmo_object data sh tbl_off of
           Inl e \<Rightarrow> Inl e
         | Inr None \<Rightarrow> lmo_loop data sh is results
         | Inr (Some info) \<Rightarrow> lmo_loop data sh is (results @ [(i, info)])))"

definition parse_lmo_animations :: "bytes \<Rightarrow> error + (int \<times> AnimInfo) list" where
  "parse_lmo_animations data =
     (if len_bytes data < 8 then Inr []
      else
        (case unpack_I data 0 of
           Inl e \<Rightarrow> Inl e
         | Inr lmo_version \<Rightarrow>
        (case unpack_I data 4 of
           Inl e \<Rightarrow> Inl e
         | Inr obj_num \<Rightarrow>
             if lmo_version = 0 then Inr []
             else if obj_num > 500 then Inr []
             else lmo_loop data (shape_of_version lmo_version) (py_range obj_num) [])))"

section \<open>The sceneobjinfo.bin parser\<close>

text \<open>
  A slice \<open>xs[a:b]\<close>: negative bounds count from the end and both bounds are clamped to
  the list, so a slice never raises.
\<close>

definition py_slice :: "'a list \<Rightarrow> int \<Rightarrow> int \<Rightarrow> 'a list" where
  "py_slice xs a b =
     (let n = int (length xs);
          lo = (if a < 0 then max (a + n) 0 else min a n);
          hi = (if b < 0 then max (b + n) 0 else min b n)
      in take (nat (hi - lo)) (drop (nat lo) xs))"

text \<open>\<open>name_bytes.find(b"\x00")\<close>: the index of the first zero byte, or \<open>-1\<close>.\<close>

definition find_zero :: "bytes \<Rightarrow> int" where
  "find_zero bs = (if 0 \<in> set bs then int (length (takeWhile (\<lambda>b. b \<noteq> 0) bs)) else -1)"

text \<open>
  A Python \<open>str\<close> is a sequence of Unicode code points. The library chain
  \<open>.decode("utf-8", errors="replace").strip().lower()\<close> is not code of the script: the
  parser takes it as the parameter \<open>decode\<close>, and everything proved about the parser
  holds for every such function.
\<close>

type_synonym py_str = "nat list"

text \<open>
  What that chain computes on a buffer of ASCII bytes, where UTF-8 decoding maps each
  byte to the code point of the same number: \<open>strip\<close> removes the leading and trailing
  white space (tab to carriage return, the four separators \<open>0x1C\<close> to \<open>0x1F\<close> and the
  space) and \<open>lower\<close> maps \<open>A\<close> to \<open>Z\<close> onto \<open>a\<close> to \<open>z\<close>. On a byte above \<open>0x7F\<close>
  Python differs (it decodes a multi-byte sequence or substitutes \<open>U+FFFD\<close>); this
  function is used on ASCII buffers only.
\<close>

definition ascii_space :: "nat \<Rightarrow> bool" where
  "ascii_space c \<longleftrightarrow> (9 \<le> c \<and> c \<le> 13) \<or> (28 \<le> c \<and> c \<le> 32)"

definition ascii_lower :: "nat \<Rightarrow> nat" where
  "ascii_lower c = (if 65 \<le> c \<and> c \<le> 90 then c + 32 else c)"

definition ascii_decode_strip_lower :: "bytes \<Rightarrow> py_str" where
  "ascii_decode_strip_lower bs =
     map ascii_lower (rev (dropWhile ascii_space (rev (dropWhile ascii_space (map unat bs)))))"

text \<open>
  One iteration of the record loop on its \<open>chunk\<close>: \<open>Inr None\<close> when the record is
  skipped, \<open>Inr (Some (obj_id, filename))\<close> when the iteration ends with
  \<open>result[obj_id] = filename\<close>.
\<close>

definition catalog_record :: "(bytes \<Rightarrow> py_str) \<Rightarrow> bytes \<Rightarrow> error + (int \<times> py_str) option" where
  "catalog_record decode chunk =
     (case unpack_i chunk 0 of
        Inl e \<Rightarrow> Inl e
      | Inr b_exist \<Rightarrow>
          if b_exist = 0 then Inr None
          else
            (case unpack_I chunk 100 of
               Inl e \<Rightarrow> Inl e
             | Inr obj_id \<Rightarrow>
                 (let name_bytes = py_slice chunk 8 (8 + 72);
                      end' = find_zero name_bytes;
                      name_bytes = (if end' \<ge> 0 then py_slice name_bytes 0 end' else name_bytes);
                      filename = decode name_bytes
                  in if filename \<noteq> [] then Inr (Some (obj_id, filename)) else Inr None)))"

text \<open>The loop \<open>for i in range(entry_count)\<close>; the dictionary \<open>result\<close> is a map.\<close>

fun catalog_loop :: "(bytes \<Rightarrow> py_str) \<Rightarrow> bytes \<Rightarrow> int \<Rightarrow> int list \<Rightarrow> (int \<rightharpoonup> py_str)
    \<Rightarrow> error + (int \<rightharpoonup> py_str)" where
  "catalog_loop decode data entry_size [] result = Inr result"
| "catalog_loop decode data entry_size (i # is) result =
     (let offset = i * entry_size in
      if offset + entry_size > len_bytes data then Inr result
      else
        (let chunk = py_slice data offset (offset + entry_size) in
         case catalog_record decode chunk of
           Inl e \<Rightarrow> Inl e
         | Inr None \<Rightarrow> catalog_loop decode data entry_size is result
         | Inr (Some (obj_id, filename)) \<Rightarrow>
             catalog_loop decode data entry_size is (result(obj_id \<mapsto> filename))))"

text \<open>
  \<open>parse_sceneobjinfo_bin\<close> on the content of an existing file (for a missing file the
  script returns the empty dictionary before reading anything).
\<close>

definition parse_sceneobjinfo_bin :: "(bytes \<Rightarrow> py_str) \<Rightarrow> bytes \<Rightarrow> error + (int \<rightharpoonup> py_str)" where
  "parse_sceneobjinfo_bin decode data =
     (if len_bytes data < 4 then Inr Map.empty
      else
        (case unpack_I data 0 of
           Inl e \<Rightarrow> Inl e
         | Inr entry_size \<Rightarrow>
             if entry_size = 0 then Inr Map.empty
             else
               (let data = py_slice data 4 (len_bytes data);
                    entry_count = len_bytes data div entry_size
                in catalog_loop decode data entry_size (py_range entry_count) Map.empty)))"

section \<open>The map .obj parser\<close>

text \<open>Indexing a list, \<open>xs[i]\<close>: raises \<open>IndexError\<close> out of range.\<close>

definition py_index :: "'a list \<Rightarrow> int \<Rightarrow> error + 'a" where
  "py_index xs i =
     (let n = int (length xs); j = (if i < 0 then i + n else i)
      in if 0 \<le> j \<and> j < n then Inr (xs ! nat j) else Inl IndexError)"

text \<open>The first loop: the section index, one \<open>(offset, count)\<close> pair per section.\<close>

fun read_section_index :: "bytes \<Rightarrow> int \<Rightarrow> int list \<Rightarrow> int list \<Rightarrow> int list
    \<Rightarrow> error + (int list \<times> int list)" where
  "read_section_index data idx_start [] section_offsets section_counts =
     Inr (section_offsets, section_counts)"
| "read_section_index data idx_start (s # ss) section_offsets section_counts =
     (let off = idx_start + s * 8 in
      case unpack_i data off of
        Inl e \<Rightarrow> Inl e
      | Inr sec_off \<Rightarrow>
      (case unpack_i data (off + 4) of
        Inl e \<Rightarrow> Inl e
      | Inr sec_cnt \<Rightarrow>
          read_section_index data idx_start ss
            (section_offsets @ [sec_off]) (section_counts @ [sec_cnt])))"

text \<open>The two fields packed into the 16-bit value of a placement entry.\<close>

definition split_type_id :: "int \<Rightarrow> int \<times> int" where
  "split_type_id raw_type_id =
     (let obj_type = drop_bit 14 (raw_type_id AND 0xFFFF);
          obj_id = (raw_type_id AND 0xFFFF) AND 0x3FFF
      in (obj_type, obj_id))"

text \<open>
  The set \<open>placements\<close> is kept as a list without repetition: \<open>placements.add(p)\<close> is
  \<open>List.insert p\<close>, which leaves the list alone when \<open>p\<close> is in it. The script returns
  \<open>list(placements)\<close>, the elements of the set once each in an order Python does not
  fix; the model returns them in one such order, and the properties below do not
  depend on it.
\<close>

definition add_placement :: "int \<Rightarrow> (int \<times> int) list \<Rightarrow> (int \<times> int) list" where
  "add_placement raw_type_id placements =
     (case split_type_id raw_type_id of
        (obj_type, obj_id) \<Rightarrow>
          if obj_id > 0 \<and> obj_type \<le> 1 then List.insert (obj_type, obj_id) placements
          else placements)"

text \<open>The loop \<open>for j in range(count)\<close> over the 20-byte entries of one section.\<close>

fun obj_entries :: "bytes \<Rightarrow> int \<Rightarrow> int list \<Rightarrow> (int \<times> int) list \<Rightarrow> error + (int \<times> int) list" where
  "obj_entries data offset [] placements = Inr placements"
| "obj_entries data offset (j # js) placements =
     (let entry_off = offset + j * 20 in
      if entry_off + 20 > len_bytes data then Inr placements
      else
        (case unpack_h data entry_off of
           Inl e \<Rightarrow> Inl e
         | Inr raw_type_id \<Rightarrow> obj_entries data offset js (add_placement raw_type_id placements)))"

text \<open>The second loop \<open>for s in range(section_cnt)\<close>.\<close>

fun obj_sections :: "bytes \<Rightarrow> int list \<Rightarrow> int list \<Rightarrow> int list \<Rightarrow> (int \<times> int) list
    \<Rightarrow> error + (int \<times> int) list" where
  "obj_sections data section_offsets section_counts [] placements = Inr placements"
| "obj_sections data section_offsets section_counts (s # ss) placements =
     (case py_index section_counts s of
        Inl e \<Rightarrow> Inl e
      | Inr count \<Rightarrow>
      (case py_index section_offsets s of
        Inl e \<Rightarrow> Inl e
      | Inr offset \<Rightarrow>
          if count \<le> 0 \<or> offset \<le> 0
          then obj_sections data section_offsets section_counts ss placements
          else
            (case obj_entries data offset (py_range count) placements of
               Inl e \<Rightarrow> Inl e
             | Inr placements' \<Rightarrow>
                 obj_sections data section_offsets section_counts ss placements')))"

definition parse_obj_file :: "bytes \<Rightarrow> error + (int \<times> int) list" where
  "parse_obj_file data =
     (if len_bytes data < 44 then Inr []
      else
        (case unpack_i data 16 of
           Inl e \<Rightarrow> Inl e
         | Inr version \<Rightarrow>
             if version \<noteq> 600 then Inr []
             else
               (case unpack_i data 24 of
                  Inl e \<Rightarrow> Inl e
                | Inr section_cnt_x \<Rightarrow>
               (case unpack_i data 28 of
                  Inl e \<Rightarrow> Inl e
                | Inr section_cnt_y \<Rightarrow>
                    (let section_cnt = section_cnt_x * section_cnt_y;
                         idx_start = 44
                     in if idx_start + section_cnt * 8 > len_bytes data then Inr []
                        else
                          (case read_section_index data idx_start (py_range section_cnt) [] [] of
                             Inl e \<Rightarrow> Inl e
                           | Inr (section_offsets, section_counts) \<Rightarrow>
                               obj_sections data section_offsets section_counts
                                 (py_range section_cnt) []))))))"

section \<open>Notions used to state the properties\<close>

text \<open>
  Entry \<open>i\<close> of the object table is read when the loop does not \<open>break\<close> on it.
\<close>

definition entry_fits :: "bytes \<Rightarrow> int \<Rightarrow> bool" where
  "entry_fits data i \<longleftrightarrow> \<not> (8 + i * 12 + 12 > len_bytes data)"

text \<open>What iteration \<open>i\<close> of the loop appends to \<open>results\<close>.\<close>

definition object_result :: "bytes \<Rightarrow> header_shape \<Rightarrow> int \<Rightarrow> (int \<times> AnimInfo) list" where
  "object_result data sh i =
     (case lmo_object data sh (8 + i * 12) of
        Inr (Some info) \<Rightarrow> [(i, info)]
      | _ \<Rightarrow> [])"

text \<open>
  The size equation in the words of the specification: header table byte width plus
  bone size plus material size plus the sums of the opacity, uv and image sizes equals
  the animation block size.
\<close>

definition size_equation :: "header_shape \<Rightarrow> AnimInfo \<Rightarrow> int \<Rightarrow> bool" where
  "size_equation sh info anim_size \<longleftrightarrow>
     n_entries sh * 4 + bone_size info + mat_size info
     + sum_list (map snd (mtlopac_sizes info))
     + sum_list (map (\<lambda>e. snd (snd e)) (texuv_sizes info))
     + sum_list (map (\<lambda>e. snd (snd e)) (teximg_sizes info)) = anim_size"

text \<open>
  A container of 748 bytes with one geometry object at offset 20: version
  \<open>0x1000 + ver\<close>, one table entry \<open>(1, 20, size)\<close> whose four size bytes are all
  \<open>d\<close>, a header whose animation size has the low bytes \<open>a0\<close>, \<open>a1\<close>, and a size
  array at offset 136 whose third entry is 4 and whose other entries are 0.
\<close>

definition sample_head :: "byte \<Rightarrow> byte \<Rightarrow> byte \<Rightarrow> byte \<Rightarrow> bytes" where
  "sample_head ver d a0 a1 =
     [ver, 0x10, 0, 0,  1, 0, 0, 0,  1, 0, 0, 0,  20, 0, 0, 0,  d, d, d, d]
     @ replicate 100 0
     @ [0, 0, 0, 0,  0, 0, 0, 0,  0, 0, 0, 0,  a0, a1, 0, 0,
        0, 0, 0, 0,  0, 0, 0, 0,  4, 0, 0, 0]"

definition sample_lmo :: "byte \<Rightarrow> byte \<Rightarrow> byte \<Rightarrow> byte \<Rightarrow> bytes" where
  "sample_lmo ver d a0 a1 = sample_head ver d a0 a1 @ replicate 600 0"

definition uv_info :: AnimInfo where
  "uv_info = \<lparr>bone_size = 0, mat_size = 0, mtlopac_sizes = [],
     texuv_sizes = [(0, 0, 4)], teximg_sizes = []\<rparr>"

definition opac_info :: AnimInfo where
  "opac_info = \<lparr>bone_size = 0, mat_size = 0, mtlopac_sizes = [(0, 4)],
     texuv_sizes = [], teximg_sizes = []\<rparr>"

text \<open>
  Three containers of 20 bytes: one of version 0, one that declares 501 objects, and
  one whose only entry points to offset 200, beyond the end of the file.
\<close>

definition legacy_lmo :: bytes where
  "legacy_lmo = [0, 0, 0, 0,  1, 0, 0, 0,  1, 0, 0, 0,  20, 0, 0, 0,  0, 0, 0, 0]"

definition crowded_lmo :: bytes where
  "crowded_lmo = [4, 0x10, 0, 0,  0xF5, 1, 0, 0,  1, 0, 0, 0,  20, 0, 0, 0,  0, 0, 0, 0]"

definition truncated_lmo :: bytes where
  "truncated_lmo = [4, 0x10, 0, 0,  1, 0, 0, 0,  1, 0, 0, 0,  200, 0, 0, 0,  0, 0, 0, 0]"

text \<open>
  Byte \<open>k\<close> of a container lies in the third field (the declared size, bytes 8 to 11) of
  one of the \<open>obj_num\<close> entries of its object table.
\<close>

definition declared_size_byte :: "bytes \<Rightarrow> nat \<Rightarrow> bool" where
  "declared_size_byte data k \<longleftrightarrow>
     8 \<le> k \<and> int ((k - 8) div 12) < le_uint (take 4 (drop 4 data)) \<and> 8 \<le> (k - 8) mod 12"

text \<open>Two containers of the same length that differ in such bytes only.\<close>

definition differ_only_in_declared_size :: "bytes \<Rightarrow> bytes \<Rightarrow> bool" where
  "differ_only_in_declared_size d1 d2 \<longleftrightarrow>
     length d1 = length d2
     \<and> (\<forall>k\<in>{0..<length d1}. d1 ! k \<noteq> d2 ! k \<longrightarrow> declared_size_byte d1 k)"

text \<open>Two buffers of the same length that hold the same bytes from position \<open>p\<close> on.\<close>

definition agree_from :: "nat \<Rightarrow> bytes \<Rightarrow> bytes \<Rightarrow> bool" where
  "agree_from p d1 d2 \<longleftrightarrow> length d1 = length d2 \<and> (\<forall>k. p \<le> k \<and> k < length d1 \<longrightarrow> d1 ! k = d2 ! k)"

text \<open>
  Every geometry entry of the object table points to an object whose four size fields
  (at \<open>addr + 100\<close>) start at or after the end of the table, \<open>8 + 12 * obj_num\<close>.
\<close>

definition objects_beyond_table :: "bytes \<Rightarrow> bool" where
  "objects_beyond_table data \<longleftrightarrow>
     (let obj_num = le_uint (take 4 (drop 4 data)) in
      \<forall>i\<in>set (py_range obj_num).
        (case unpack_III data (8 + i * 12) of
           Inl e \<Rightarrow> True
         | Inr (ty, addr, sz) \<Rightarrow> ty = OBJ_TYPE_GEOMETRY \<longrightarrow> 8 + 12 * obj_num \<le> addr + 100))"

text \<open>
  A container of 728 bytes whose table has nine entries and whose only geometry entry,
  the first, points to offset 0: the four size fields of that object, at offsets 100
  to 115, are bytes of entries 7 and 8 of the table, and its animation size is the
  declared size of entry 8, with the low bytes \<open>a0\<close>, \<open>a1\<close>. The size array is at
  offset 116; its third entry is 4 and the others are 0.
\<close>

definition alias_head :: "byte \<Rightarrow> byte \<Rightarrow> bytes" where
  "alias_head a0 a1 =
     [4, 0x10, 0, 0,  9, 0, 0, 0,  1, 0, 0, 0,  0, 0, 0, 0,  0, 0, 0, 0]
     @ replicate 92 0
     @ [a0, a1, 0, 0,  0, 0, 0, 0,  0, 0, 0, 0,  4, 0, 0, 0]"

definition alias_lmo :: "byte \<Rightarrow> byte \<Rightarrow> bytes" where
  "alias_lmo a0 a1 = alias_head a0 a1 @ replicate 600 0"

text \<open>
  The bytes after the leading record width (\<open>data[4:]\<close>) and record \<open>i\<close> of the
  catalog, the \<open>chunk\<close> of iteration \<open>i\<close>.
\<close>

definition catalog_body :: "bytes \<Rightarrow> bytes" where
  "catalog_body data = py_slice data 4 (len_bytes data)"

definition catalog_chunk :: "bytes \<Rightarrow> int \<Rightarrow> int \<Rightarrow> bytes" where
  "catalog_chunk data entry_size i =
     py_slice (catalog_body data) (i * entry_size) (i * entry_size + entry_size)"

text \<open>
  A record of 104 bytes: exists flag 1, a name of the one byte \<open>c\<close>, identifier 42.
\<close>

definition sample_record :: "byte \<Rightarrow> bytes" where
  "sample_record c =
     [1, 0, 0, 0,  0, 0, 0, 0,  c] @ replicate 71 0 @ replicate 20 0 @ [42, 0, 0, 0]"

text \<open>
  A catalog of two such records, named \<open>a\<close> and \<open>B\<close>, and a catalog whose record
  width is 1, followed by a single byte.
\<close>

definition sample_catalog :: bytes where
  "sample_catalog = [104, 0, 0, 0] @ sample_record 0x61 @ sample_record 0x42"

definition narrow_catalog :: bytes where
  "narrow_catalog = [1, 0, 0, 0, 0x41]"

text \<open>
  The number of sections that the header of a map file announces, and the
  \<open>(offset, count)\<close> pair of section \<open>s\<close> in the section index (0 where the read
  would fail, which it does not for a section below the announced number once the
  index fits the file).
\<close>

definition obj_section_cnt :: "bytes \<Rightarrow> int" where
  "obj_section_cnt data =
     (case (unpack_i data 24, unpack_i data 28) of
        (Inr section_cnt_x, Inr section_cnt_y) \<Rightarrow> section_cnt_x * section_cnt_y
      | _ \<Rightarrow> 0)"

definition section_offset :: "bytes \<Rightarrow> int \<Rightarrow> int" where
  "section_offset data s = (case unpack_i data (44 + s * 8) of Inr v \<Rightarrow> v | Inl e \<Rightarrow> 0)"

definition section_count :: "bytes \<Rightarrow> int \<Rightarrow> int" where
  "section_count data s = (case unpack_i data (44 + s * 8 + 4) of Inr v \<Rightarrow> v | Inl e \<Rightarrow> 0)"

text \<open>The pair that the 20-byte entry at \<open>entry_off\<close> places, if it places one.\<close>

definition entry_placement :: "bytes \<Rightarrow> int \<Rightarrow> (int \<times> int) option" where
  "entry_placement data entry_off =
     (case unpack_h data entry_off of
        Inl e \<Rightarrow> None
      | Inr raw_type_id \<Rightarrow>
          (case split_type_id raw_type_id of
             (obj_type, obj_id) \<Rightarrow>
               if obj_id > 0 \<and> obj_type \<le> 1 then Some (obj_type, obj_id) else None))"

text \<open>
  The pair placed by slot \<open>j\<close> of section \<open>s\<close>: the section has a positive count and
  offset, the slot is below the count, and its 20 bytes lie inside the file.
\<close>

definition slot_placement :: "bytes \<Rightarrow> int \<Rightarrow> int \<Rightarrow> (int \<times> int) option" where
  "slot_placement data s j =
     (let offset = section_offset data s; count = section_count data s in
      if count \<le> 0 \<or> offset \<le> 0 then None
      else if j < 0 \<or> count \<le> j then None
      else if offset + j * 20 + 20 > len_bytes data then None
      else entry_placement data (offset + j * 20))"

text \<open>All the pairs that some slot of some section of the file places.\<close>

definition placed_pairs :: "bytes \<Rightarrow> (int \<times> int) set" where
  "placed_pairs data =
     {p. \<exists>s j. 0 \<le> s \<and> s < obj_section_cnt data \<and> slot_placement data s j = Some p}"

text \<open>
  The header of a map file passes the three checks of \<open>parse_obj_file\<close>: at least 44
  bytes, version 600, and a section index that fits the file.
\<close>

definition obj_header_ok :: "bytes \<Rightarrow> bool" where
  "obj_header_ok data \<longleftrightarrow>
     len_bytes data \<ge> 44 \<and> unpack_i data 16 = Inr 600
     \<and> 44 + obj_section_cnt data * 8 \<le> len_bytes data"

text \<open>
  A map file of 120 bytes, version 600, with a grid of 2 by 1 sections: section 0 has
  one entry at offset 60, section 1 has two entries at offset 80. The entries at 60
  and at 80 both place identifier 42 with kind 0; the entry at 100 places identifier
  7 with kind 1 (packed value \<open>0x4007\<close>).
\<close>

definition sample_map :: bytes where
  "sample_map =
     replicate 16 0
     @ [0x58, 2, 0, 0,  120, 0, 0, 0,  2, 0, 0, 0,  1, 0, 0, 0]
     @ replicate 12 0
     @ [60, 0, 0, 0,  1, 0, 0, 0,  80, 0, 0, 0,  2, 0, 0, 0]
     @ [42, 0] @ replicate 18 0
     @ [42, 0] @ replicate 18 0
     @ [7, 0x40] @ replicate 18 0"

section \<open>Auxiliary facts\<close>

lemma le_uint_nonneg: "0 \<le> le_uint bs"
  by (induction bs) auto

lemma le_uint_bound: "le_uint bs < 256 ^ length bs"
proof (induction bs)
  case Nil
  then show ?case by simp
next
  case (Cons b bs)
  have "uint b < 256" using uint_bounded [of b] by simp
  with Cons show ?case by simp
qed

lemma struct_bytes_ok:
  "0 \<le> off \<Longrightarrow> off + int n \<le> len_bytes data \<Longrightarrow>
   struct_bytes n data off = Inr (take n (drop (nat off) data))"
  by (simp add: struct_bytes_def Let_def)

lemma unpack_I_ok:
  "0 \<le> off \<Longrightarrow> off + 4 \<le> len_bytes data \<Longrightarrow>
   unpack_I data off = Inr (le_uint (take 4 (drop (nat off) data)))"
  by (simp add: unpack_I_def struct_bytes_ok)

lemma unpack_III_ok:
  "0 \<le> off \<Longrightarrow> off + 12 \<le> len_bytes data \<Longrightarrow>
   \<exists>typ addr sz. unpack_III data off = Inr (typ, addr, sz) \<and> 0 \<le> typ \<and> 0 \<le> addr \<and> 0 \<le> sz"
  by (simp add: unpack_III_def struct_bytes_ok le_uint_nonneg)

lemma unpack_IIII_ok:
  "0 \<le> off \<Longrightarrow> off + 16 \<le> len_bytes data \<Longrightarrow>
   \<exists>a b c d. unpack_IIII data off = Inr (a, b, c, d) \<and> 0 \<le> a \<and> 0 \<le> b \<and> 0 \<le> c \<and> 0 \<le> d"
  by (simp add: unpack_IIII_def struct_bytes_ok le_uint_nonneg)

lemma read_mtlopac_ok:
  "0 \<le> off \<Longrightarrow> \<forall>s\<in>set ss. 0 \<le> s \<and> off + s * 4 + 4 \<le> len_bytes data \<Longrightarrow>
   \<exists>r. read_mtlopac data off ss acc = Inr r"
  by (induction ss arbitrary: acc) (auto simp: unpack_I_ok)

lemma read_grid_ok:
  "0 \<le> off \<Longrightarrow> \<forall>(s, t)\<in>set sts. 0 \<le> s \<and> 0 \<le> t \<and> off + (s * 4 + t) * 4 + 4 \<le> len_bytes data \<Longrightarrow>
   \<exists>r. read_grid data off sts acc = Inr r"
  by (induction sts arbitrary: acc) (auto simp: unpack_I_ok)

lemma set_py_range: "set (py_range n) = {i. 0 \<le> i \<and> i < n}"
proof -
  have "i \<in> set (py_range n) \<longleftrightarrow> 0 \<le> i \<and> i < n" for i
  proof
    assume "i \<in> set (py_range n)"
    then show "0 \<le> i \<and> i < n" by (auto simp: py_range_def)
  next
    assume a: "0 \<le> i \<and> i < n"
    then have "nat i \<in> set [0..<nat n]" by auto
    then have "int (nat i) \<in> set (py_range n)" unfolding py_range_def set_map by (rule imageI)
    with a show "i \<in> set (py_range n)" by simp
  qed
  then show ?thesis by blast
qed

lemma set_grid_indices: "set grid_indices = {(s, t). 0 \<le> s \<and> s < 16 \<and> 0 \<le> t \<and> t < 4}"
  by (auto simp: grid_indices_def set_py_range)

lemma read_grid_indices_ok:
  assumes "0 \<le> off" "off + 256 \<le> len_bytes data"
  shows "\<exists>r. read_grid data off grid_indices acc = Inr r"
  by (rule read_grid_ok) (use assms in \<open>auto simp: set_grid_indices\<close>)

lemma read_mtlopac_16_ok:
  assumes "0 \<le> off" "off + 64 \<le> len_bytes data"
  shows "\<exists>ms. read_mtlopac data off (py_range 16) acc = Inr ms"
  by (rule read_mtlopac_ok) (use assms in \<open>auto simp: set_py_range\<close>)

lemma read_size_array_146_ok:
  assumes "0 \<le> ao" "ao + 584 \<le> len_bytes data"
  shows "\<exists>info. read_size_array data
           \<lparr>n_entries = 146, has_mtlopac = True, mtlopac_count = 16\<rparr> ao = Inr info"
proof -
  have b: "unpack_I data ao = Inr (le_uint (take 4 (drop (nat ao) data)))"
    using assms by (simp add: unpack_I_ok)
  have m: "unpack_I data (ao + 4) = Inr (le_uint (take 4 (drop (nat (ao + 4)) data)))"
    using assms by (simp add: unpack_I_ok)
  obtain ms where ms: "read_mtlopac data (ao + 8) (py_range 16) [] = Inr ms"
    using read_mtlopac_16_ok [of "ao + 8" data "[]"] assms by auto
  obtain uvs where uvs: "read_grid data (ao + 8 + 16 * 4) grid_indices [] = Inr uvs"
    using read_grid_indices_ok [of "ao + 8 + 16 * 4" data "[]"] assms by auto
  obtain imgs where imgs: "read_grid data (ao + 8 + 16 * 4 + 16 * 4 * 4) grid_indices [] = Inr imgs"
    using read_grid_indices_ok [of "ao + 8 + 16 * 4 + 16 * 4 * 4" data "[]"] assms by auto
  show ?thesis
    unfolding read_size_array_def Let_def by (simp only: b m ms uvs imgs sum.case header_shape.simps if_True prod.case) simp
qed

lemma read_size_array_130_ok:
  assumes "0 \<le> ao" "ao + 520 \<le> len_bytes data"
  shows "\<exists>info. read_size_array data
           \<lparr>n_entries = 130, has_mtlopac = False, mtlopac_count = 0\<rparr> ao = Inr info"
proof -
  have b: "unpack_I data ao = Inr (le_uint (take 4 (drop (nat ao) data)))"
    using assms by (simp add: unpack_I_ok)
  have m: "unpack_I data (ao + 4) = Inr (le_uint (take 4 (drop (nat (ao + 4)) data)))"
    using assms by (simp add: unpack_I_ok)
  obtain uvs where uvs: "read_grid data (ao + 8) grid_indices [] = Inr uvs"
    using read_grid_indices_ok [of "ao + 8" data "[]"] assms by auto
  obtain imgs where imgs: "read_grid data (ao + 8 + 16 * 4 * 4) grid_indices [] = Inr imgs"
    using read_grid_indices_ok [of "ao + 8 + 16 * 4 * 4" data "[]"] assms by auto
  show ?thesis
    unfolding read_size_array_def Let_def by (simp only: b m uvs imgs sum.case header_shape.simps if_False prod.case) simp
qed

lemma read_size_array_ok:
  assumes "0 \<le> ao" "ao + header_bytes (shape_of_version v) \<le> len_bytes data"
  shows "\<exists>info. read_size_array data (shape_of_version v) ao = Inr info"
proof (cases "v \<ge> 0x1005")
  case True
  then have sh: "shape_of_version v = \<lparr>n_entries = 146, has_mtlopac = True, mtlopac_count = 16\<rparr>"
    by (simp add: shape_of_version_def)
  from assms have len: "ao + 584 \<le> len_bytes data" by (simp add: sh header_bytes_def)
  show ?thesis unfolding sh by (rule read_size_array_146_ok [OF assms(1) len])
next
  case False
  then have sh: "shape_of_version v = \<lparr>n_entries = 130, has_mtlopac = False, mtlopac_count = 0\<rparr>"
    by (simp add: shape_of_version_def)
  from assms have len: "ao + 520 \<le> len_bytes data" by (simp add: sh header_bytes_def)
  show ?thesis unfolding sh by (rule read_size_array_130_ok [OF assms(1) len])
qed

lemma lmo_object_ok:
  assumes "0 \<le> tbl_off" "tbl_off + 12 \<le> len_bytes data"
  shows "\<exists>r. lmo_object data (shape_of_version v) tbl_off = Inr r"
proof -
  obtain ty addr sz where e: "unpack_III data tbl_off = Inr (ty, addr, sz)" and addr: "0 \<le> addr"
    using unpack_III_ok [OF assms] by blast
  show ?thesis
  proof (cases "ty \<noteq> OBJ_TYPE_GEOMETRY \<or> addr + 116 > len_bytes data")
    case True
    then show ?thesis by (auto simp: lmo_object_def e)
  next
    case False
    then have fits: "addr + 100 + 16 \<le> len_bytes data" by simp
    obtain a b c d where h: "unpack_IIII data (addr + 100) = Inr (a, b, c, d)"
      and nn: "0 \<le> a" "0 \<le> b" "0 \<le> c"
      using unpack_IIII_ok [of "addr + 100" data] addr fits by force
    have ao: "0 \<le> addr + 116 + a + b + c" using addr nn by simp
    show ?thesis
    proof (cases "d = 0 \<or> addr + 116 + a + b + c + header_bytes (shape_of_version v) > len_bytes data")
      case True
      then show ?thesis using False by (auto simp: lmo_object_def e h Let_def)
    next
      case False
      then obtain info where "read_size_array data (shape_of_version v) (addr + 116 + a + b + c) = Inr info"
        using read_size_array_ok [OF ao, of v data] by auto
      then show ?thesis using False \<open>\<not> (ty \<noteq> OBJ_TYPE_GEOMETRY \<or> addr + 116 > len_bytes data)\<close>
        by (auto simp: lmo_object_def e h Let_def)
    qed
  qed
qed

lemma lmo_loop_ok:
  "\<forall>i\<in>set is. 0 \<le> i \<Longrightarrow> \<exists>r. lmo_loop data (shape_of_version v) is acc = Inr r"
proof (induction "is" arbitrary: acc)
  case Nil
  then show ?case by simp
next
  case (Cons i "is")
  show ?case
  proof (cases "8 + i * 12 + 12 > len_bytes data")
    case True
    then show ?thesis by simp
  next
    case False
    then obtain r where r: "lmo_object data (shape_of_version v) (8 + i * 12) = Inr r"
      using lmo_object_ok [of "8 + i * 12" data v] Cons.prems by auto
    show ?thesis using False r Cons.IH Cons.prems
      by (cases r) (auto simp: Let_def)
  qed
qed

lemma lmo_loop_concat:
  "\<forall>i\<in>set is. 0 \<le> i \<Longrightarrow>
   lmo_loop data (shape_of_version v) is acc =
     Inr (acc @ concat (map (object_result data (shape_of_version v)) (takeWhile (entry_fits data) is)))"
proof (induction "is" arbitrary: acc)
  case Nil
  then show ?case by simp
next
  case (Cons i "is")
  show ?case
  proof (cases "entry_fits data i")
    case False
    then show ?thesis by (simp add: entry_fits_def)
  next
    case True
    then have fits: "\<not> (8 + i * 12 + 12 > len_bytes data)" by (simp add: entry_fits_def)
    then obtain r where r: "lmo_object data (shape_of_version v) (8 + i * 12) = Inr r"
      using lmo_object_ok [of "8 + i * 12" data v] Cons.prems by auto
    have IH: "lmo_loop data (shape_of_version v) is acc' =
       Inr (acc' @ concat (map (object_result data (shape_of_version v)) (takeWhile (entry_fits data) is)))"
      for acc' using Cons.IH Cons.prems by simp
    show ?thesis
    proof (cases r)
      case None
      with r have "object_result data (shape_of_version v) i = []"
        by (simp add: object_result_def)
      with None r fits True show ?thesis by (simp add: IH)
    next
      case (Some info)
      with r have "object_result data (shape_of_version v) i = [(i, info)]"
        by (simp add: object_result_def)
      with Some r fits True show ?thesis by (simp add: IH)
    qed
  qed
qed

lemma parse_lmo_animations_eq:
  assumes "\<not> len_bytes data < 8"
  shows "parse_lmo_animations data =
    (let lmo_version = le_uint (take 4 data); obj_num = le_uint (take 4 (drop 4 data)) in
     if lmo_version = 0 then Inr [] else if obj_num > 500 then Inr []
     else lmo_loop data (shape_of_version lmo_version) (py_range obj_num) [])"
  using assms by (simp add: parse_lmo_animations_def unpack_I_ok Let_def)

lemma parse_lmo_animations_concat:
  assumes "unpack_I data 0 = Inr lmo_version" "unpack_I data 4 = Inr obj_num"
    "\<not> len_bytes data < 8" "lmo_version \<noteq> 0" "\<not> obj_num > 500"
  shows "parse_lmo_animations data =
     Inr (concat (map (object_result data (shape_of_version lmo_version))
            (takeWhile (entry_fits data) (py_range obj_num))))"
proof -
  have "parse_lmo_animations data = lmo_loop data (shape_of_version lmo_version) (py_range obj_num) []"
    using assms by (simp add: parse_lmo_animations_def)
  also have "\<dots> = Inr ([] @ concat (map (object_result data (shape_of_version lmo_version))
            (takeWhile (entry_fits data) (py_range obj_num))))"
    by (rule lmo_loop_concat) (simp add: set_py_range)
  finally show ?thesis by simp
qed

lemma object_result_member:
  "(i, info) \<in> set (concat (map (object_result data sh) js)) \<Longrightarrow>
   i \<in> set js \<and> lmo_object data sh (8 + i * 12) = Inr (Some info)"
  by (auto simp: object_result_def split: sum.splits option.splits)

lemma sum_list_case2: "sum_list (map (\<lambda>(_, sz). sz) xs) = sum_list (map snd xs)"
  by (induction xs) auto

lemma sum_list_case3: "sum_list (map (\<lambda>(_, _, sz). sz) xs) = sum_list (map (\<lambda>e. snd (snd e)) xs)"
  by (induction xs) auto

lemma size_equation_total: "size_equation sh info a \<longleftrightarrow> header_bytes sh + total_of info = a"
  by (simp add: size_equation_def total_of_def header_bytes_def sum_list_case2 sum_list_case3
      add.assoc)

lemma lmo_object_Some:
  assumes "lmo_object data sh t = Inr (Some info)"
  shows "\<exists>addr sz mtl mesh helper anim_size.
           unpack_III data t = Inr (OBJ_TYPE_GEOMETRY, addr, sz)
         \<and> \<not> addr + 116 > len_bytes data
         \<and> unpack_IIII data (addr + 100) = Inr (mtl, mesh, helper, anim_size)
         \<and> anim_size \<noteq> 0
         \<and> read_size_array data sh (addr + 116 + mtl + mesh + helper) = Inr info
         \<and> size_equation sh info anim_size
         \<and> (texuv_sizes info \<noteq> [] \<or> teximg_sizes info \<noteq> [] \<or> mtlopac_sizes info \<noteq> [])"
proof -
  obtain ty addr sz where e: "unpack_III data t = Inr (ty, addr, sz)"
    using assms by (auto simp: lmo_object_def split: sum.splits)
  have g: "ty = OBJ_TYPE_GEOMETRY" and a: "\<not> addr + 116 > len_bytes data"
    using assms e by (auto simp: lmo_object_def split: if_splits)
  obtain mtl mesh helper anim_size where
    h: "unpack_IIII data (addr + 100) = Inr (mtl, mesh, helper, anim_size)"
    using assms e g a by (auto simp: lmo_object_def Let_def split: sum.splits if_splits)
  have nz: "anim_size \<noteq> 0"
    using assms e g a h by (auto simp: lmo_object_def Let_def split: if_splits)
  have fit: "\<not> addr + 116 + mtl + mesh + helper + header_bytes sh > len_bytes data"
    using assms e g a h nz by (auto simp: lmo_object_def Let_def split: if_splits)
  obtain info' where
    r: "read_size_array data sh (addr + 116 + mtl + mesh + helper) = Inr info'"
    using assms e g a h nz fit by (auto simp: lmo_object_def Let_def split: sum.splits if_splits)
  have "info' = info \<and> header_bytes sh + total_of info' = anim_size
      \<and> (texuv_sizes info' \<noteq> [] \<or> teximg_sizes info' \<noteq> [] \<or> mtlopac_sizes info' \<noteq> [])"
    using assms e g a h nz fit r by (simp add: lmo_object_def Let_def split: if_splits)
  then show ?thesis using e g a h nz r by (auto simp: size_equation_total)
qed

lemma struct_bytes_append_left:
  "0 \<le> off \<Longrightarrow> off + int n \<le> int (length pre) \<Longrightarrow>
   struct_bytes n (pre @ rest) off = struct_bytes n pre off"
  by (simp add: struct_bytes_def len_bytes_def Let_def)

lemma le_uint_zeros: "le_uint (replicate n 0) = 0"
  by (induction n) auto

lemma unpack_I_zero_tail:
  assumes "int (length pre) \<le> off" "off + 4 \<le> int (length pre) + int n"
  shows "unpack_I (pre @ replicate n 0) off = Inr 0"
proof -
  define k where "k = nat off"
  have k: "length pre \<le> k" "k + 4 \<le> length pre + n"
    using assms by (simp_all add: k_def)
  then have "take 4 (drop k (pre @ replicate n 0)) = replicate 4 0"
    by (simp add: min_def)
  then have "take 4 (drop (nat off) (pre @ replicate n 0)) = replicate 4 0"
    by (simp only: k_def)
  moreover have "0 \<le> off" using assms by simp
  moreover have "off + 4 \<le> len_bytes (pre @ replicate n 0)"
    using assms by (simp add: len_bytes_def)
  ultimately show ?thesis
    using le_uint_zeros [of 4] by (simp add: unpack_I_ok)
qed

lemma read_grid_zero:
  "\<forall>(s, t)\<in>set sts. unpack_I data (off + (s * 4 + t) * 4) = Inr 0 \<Longrightarrow>
   read_grid data off sts acc = Inr acc"
  by (induction sts arbitrary: acc) auto

lemma read_mtlopac_zero:
  "\<forall>s\<in>set ss. unpack_I data (off + s * 4) = Inr 0 \<Longrightarrow>
   read_mtlopac data off ss acc = Inr acc"
  by (induction ss arbitrary: acc) auto

lemma grid_indices_Cons: "\<exists>rest. grid_indices = (0, 0) # rest \<and>
   (\<forall>(s, t)\<in>set rest. 0 \<le> s \<and> s < 16 \<and> 0 \<le> t \<and> t < 4 \<and> 1 \<le> s * 4 + t)"
proof -
  have d: "distinct grid_indices"
    by (simp add: grid_indices_def py_range_def distinct_product distinct_map inj_on_def)
  have "grid_indices \<noteq> []" using set_grid_indices by force
  then obtain x rest where g: "grid_indices = x # rest" by (cases grid_indices) auto
  have "py_range 16 = 0 # map int [1..<16]" "py_range 4 = 0 # map int [1..<4]"
    by (simp_all add: py_range_def upt_rec [of 0])
  then have "x = (0, 0)" using g by (simp add: grid_indices_def)
  moreover have "\<forall>(s, t)\<in>set rest. 0 \<le> s \<and> s < 16 \<and> 0 \<le> t \<and> t < 4 \<and> 1 \<le> s * 4 + t"
  proof -
    { fix s t assume m: "(s, t) \<in> set rest"
      then have "(s, t) \<in> set grid_indices" unfolding g by simp
      then have r: "0 \<le> s \<and> s < 16 \<and> 0 \<le> t \<and> t < 4" by (simp add: set_grid_indices)
      have "distinct ((0, 0) # rest)" using d unfolding g \<open>x = (0, 0)\<close> .
      then have "(s, t) \<noteq> (0, 0)" using m by auto
      with r have "0 \<le> s \<and> s < 16 \<and> 0 \<le> t \<and> t < 4 \<and> 1 \<le> s * 4 + t" by auto }
    then show ?thesis by blast
  qed
  ultimately show ?thesis using g by blast
qed

lemma read_grid_first_only:
  assumes "unpack_I data off = Inr v" "v > 0"
    and "\<And>k. off + 4 \<le> k \<Longrightarrow> k + 4 \<le> off + 256 \<Longrightarrow> unpack_I data k = Inr 0"
  shows "read_grid data off grid_indices [] = Inr [(0, 0, v)]"
proof -
  obtain rest where g: "grid_indices = (0, 0) # rest"
    and r: "\<forall>(s, t)\<in>set rest. 0 \<le> s \<and> s < 16 \<and> 0 \<le> t \<and> t < 4 \<and> 1 \<le> s * 4 + t"
    using grid_indices_Cons by blast
  have "\<forall>(s, t)\<in>set rest. unpack_I data (off + (s * 4 + t) * 4) = Inr 0"
    using r by (auto intro!: assms(3))
  then have "read_grid data off rest [(0, 0, v)] = Inr [(0, 0, v)]" by (rule read_grid_zero)
  then show ?thesis using assms(1,2) by (simp add: g)
qed

lemma read_grid_all_zero:
  assumes "\<And>k. off \<le> k \<Longrightarrow> k + 4 \<le> off + 256 \<Longrightarrow> unpack_I data k = Inr 0"
  shows "read_grid data off grid_indices [] = Inr []"
  by (rule read_grid_zero) (auto simp: set_grid_indices intro!: assms)

lemma py_range_16_Cons: "\<exists>rest. py_range 16 = 0 # rest \<and> (\<forall>s\<in>set rest. 1 \<le> s \<and> s < 16)"
proof -
  have "py_range 16 = 0 # map int [1..<16]" by (simp add: py_range_def upt_rec [of 0])
  then show ?thesis by auto
qed

lemma read_mtlopac_first_only:
  assumes "unpack_I data off = Inr v" "v > 0"
    and "\<And>k. off + 4 \<le> k \<Longrightarrow> k + 4 \<le> off + 64 \<Longrightarrow> unpack_I data k = Inr 0"
  shows "read_mtlopac data off (py_range 16) [] = Inr [(0, v)]"
proof -
  obtain rest where g: "py_range 16 = 0 # rest" and r: "\<forall>s\<in>set rest. 1 \<le> s \<and> s < 16"
    using py_range_16_Cons by blast
  have "\<forall>s\<in>set rest. unpack_I data (off + s * 4) = Inr 0"
    using r by (auto intro!: assms(3))
  then have "read_mtlopac data off rest [(0, v)] = Inr [(0, v)]" by (rule read_mtlopac_zero)
  then show ?thesis using assms(1,2) by (simp add: g)
qed

lemma take_drop_append_left:
  "k + n \<le> length pre \<Longrightarrow> take n (drop k (pre @ rest)) = take n (drop k pre)"
  by simp

lemma struct_bytes_prefix:
  assumes "0 \<le> off" "off + int n \<le> int (length pre)"
  shows "struct_bytes n (pre @ rest) off = Inr (take n (drop (nat off) pre))"
proof -
  have "struct_bytes n (pre @ rest) off = struct_bytes n pre off"
    using assms by (rule struct_bytes_append_left)
  also have "\<dots> = Inr (take n (drop (nat off) pre))"
    using assms by (simp add: struct_bytes_ok len_bytes_def)
  finally show ?thesis .
qed

lemma length_sample_head: "length (sample_head ver d a0 a1) = 148"
  by (simp add: sample_head_def)

lemma len_sample_lmo: "len_bytes (sample_lmo ver d a0 a1) = 748"
  by (simp add: sample_lmo_def len_bytes_def length_sample_head)

lemma sample_version: "unpack_I (sample_lmo ver d a0 a1) 0 = Inr (uint ver + 4096)"
  by (simp add: unpack_I_def sample_lmo_def struct_bytes_prefix length_sample_head)
     (simp add: sample_head_def)

lemma sample_obj_num: "unpack_I (sample_lmo ver d a0 a1) 4 = Inr 1"
  by (simp add: unpack_I_def sample_lmo_def struct_bytes_prefix length_sample_head)
     (simp add: sample_head_def)

lemma sample_entry:
  "unpack_III (sample_lmo ver d a0 a1) 8 = Inr (OBJ_TYPE_GEOMETRY, 20, le_uint [d, d, d, d])"
  by (simp add: unpack_III_def sample_lmo_def struct_bytes_prefix length_sample_head)
     (simp add: sample_head_def OBJ_TYPE_GEOMETRY_def)

lemma sample_sizes:
  "unpack_IIII (sample_lmo ver d a0 a1) 120 = Inr (0, 0, 0, uint a0 + 256 * uint a1)"
  by (simp add: unpack_IIII_def sample_lmo_def struct_bytes_prefix length_sample_head)
     (simp add: sample_head_def)

lemma sample_bone: "unpack_I (sample_lmo ver d a0 a1) 136 = Inr 0"
  by (simp add: unpack_I_def sample_lmo_def struct_bytes_prefix length_sample_head)
     (simp add: sample_head_def)

lemma sample_mat: "unpack_I (sample_lmo ver d a0 a1) 140 = Inr 0"
  by (simp add: unpack_I_def sample_lmo_def struct_bytes_prefix length_sample_head)
     (simp add: sample_head_def)

lemma sample_first: "unpack_I (sample_lmo ver d a0 a1) 144 = Inr 4"
  by (simp add: unpack_I_def sample_lmo_def struct_bytes_prefix length_sample_head)
     (simp add: sample_head_def)

lemma sample_zero: "148 \<le> k \<Longrightarrow> k + 4 \<le> 748 \<Longrightarrow> unpack_I (sample_lmo ver d a0 a1) k = Inr 0"
  unfolding sample_lmo_def by (rule unpack_I_zero_tail) (simp_all add: length_sample_head)

lemma sample_array_130:
  "read_size_array (sample_lmo ver d a0 a1)
     \<lparr>n_entries = 130, has_mtlopac = False, mtlopac_count = 0\<rparr> 136 = Inr uv_info"
proof -
  have uv: "read_grid (sample_lmo ver d a0 a1) 144 grid_indices [] = Inr [(0, 0, 4)]"
    by (rule read_grid_first_only) (simp_all add: sample_first sample_zero)
  have img: "read_grid (sample_lmo ver d a0 a1) 400 grid_indices [] = Inr []"
    by (rule read_grid_all_zero) (simp add: sample_zero)
  show ?thesis
    by (simp add: read_size_array_def sample_bone sample_mat uv img uv_info_def)
qed

lemma sample_array_146:
  "read_size_array (sample_lmo ver d a0 a1)
     \<lparr>n_entries = 146, has_mtlopac = True, mtlopac_count = 16\<rparr> 136 = Inr opac_info"
proof -
  have op: "read_mtlopac (sample_lmo ver d a0 a1) 144 (py_range 16) [] = Inr [(0, 4)]"
    by (rule read_mtlopac_first_only) (simp_all add: sample_first sample_zero)
  have uv: "read_grid (sample_lmo ver d a0 a1) 208 grid_indices [] = Inr []"
    by (rule read_grid_all_zero) (simp add: sample_zero)
  have img: "read_grid (sample_lmo ver d a0 a1) 464 grid_indices [] = Inr []"
    by (rule read_grid_all_zero) (simp add: sample_zero)
  show ?thesis
    by (simp add: read_size_array_def sample_bone sample_mat op uv img opac_info_def)
qed

lemma sample_object_130:
  "lmo_object (sample_lmo ver d a0 a1) \<lparr>n_entries = 130, has_mtlopac = False, mtlopac_count = 0\<rparr> 8 =
     Inr (if uint a0 + 256 * uint a1 = 524 then Some uv_info else None)"
  by (simp add: lmo_object_def sample_entry len_sample_lmo sample_sizes header_bytes_def
      sample_array_130 Let_def)
     (simp add: uv_info_def total_of_def)

lemma sample_object_146:
  "lmo_object (sample_lmo ver d a0 a1) \<lparr>n_entries = 146, has_mtlopac = True, mtlopac_count = 16\<rparr> 8 =
     Inr (if uint a0 + 256 * uint a1 = 588 then Some opac_info else None)"
  by (simp add: lmo_object_def sample_entry len_sample_lmo sample_sizes header_bytes_def
      sample_array_146 Let_def)
     (simp add: opac_info_def total_of_def)

lemma py_range_1: "py_range 1 = [0]"
  by (simp add: py_range_def)

lemma sample_parse_130: "parse_lmo_animations (sample_lmo 4 d 12 2) = Inr [(0, uv_info)]"
  by (simp add: parse_lmo_animations_def len_sample_lmo sample_version sample_obj_num
      shape_of_version_def py_range_1 sample_object_130)

lemma sample_parse_130_mismatch: "parse_lmo_animations (sample_lmo 4 d 13 2) = Inr []"
  by (simp add: parse_lmo_animations_def len_sample_lmo sample_version sample_obj_num
      shape_of_version_def py_range_1 sample_object_130)

lemma sample_parse_146: "parse_lmo_animations (sample_lmo 5 d 76 2) = Inr [(0, opac_info)]"
  by (simp add: parse_lmo_animations_def len_sample_lmo sample_version sample_obj_num
      shape_of_version_def py_range_1 sample_object_146)

lemma parse_member_object:
  assumes "parse_lmo_animations data = Inr results" "(i, info) \<in> set results"
  shows "\<exists>lmo_version obj_num. \<not> len_bytes data < 8 \<and> unpack_I data 0 = Inr lmo_version
     \<and> unpack_I data 4 = Inr obj_num \<and> lmo_version \<noteq> 0 \<and> \<not> obj_num > 500
     \<and> 0 \<le> i \<and> i < obj_num \<and> entry_fits data i
     \<and> lmo_object data (shape_of_version lmo_version) (8 + i * 12) = Inr (Some info)"
proof -
  have l: "\<not> len_bytes data < 8" using assms by (auto simp: parse_lmo_animations_def split: if_splits)
  then obtain lmo_version obj_num where
    v: "unpack_I data 0 = Inr lmo_version" and n: "unpack_I data 4 = Inr obj_num"
    by (simp add: unpack_I_ok)
  have nz: "lmo_version \<noteq> 0" and le: "\<not> obj_num > 500"
    using assms l v n by (auto simp: parse_lmo_animations_def split: if_splits)
  have "results = concat (map (object_result data (shape_of_version lmo_version))
            (takeWhile (entry_fits data) (py_range obj_num)))"
    using parse_lmo_animations_concat [OF v n l nz le] assms(1) by simp
  then have m: "i \<in> set (takeWhile (entry_fits data) (py_range obj_num))"
    and o: "lmo_object data (shape_of_version lmo_version) (8 + i * 12) = Inr (Some info)"
    using object_result_member [of i info data] assms(2) by auto
  from m have "i \<in> set (py_range obj_num)" "entry_fits data i"
    by (auto dest: set_takeWhileD)
  then show ?thesis using l v n nz le o by (auto simp: set_py_range)
qed

lemma parse_lmo_animations_total:
  "\<exists>results. parse_lmo_animations data = Inr results"
proof (cases "len_bytes data < 8")
  case True
  then show ?thesis by (simp add: parse_lmo_animations_def)
next
  case False
  then show ?thesis
    using lmo_loop_ok [of "py_range _" data]
    by (auto simp: parse_lmo_animations_def unpack_I_ok set_py_range)
qed

lemma unpack_I_Inr_len:
  "unpack_I data off = Inr v \<Longrightarrow> 0 \<le> off \<Longrightarrow> off + 4 \<le> len_bytes data"
  by (auto simp: unpack_I_def struct_bytes_def Let_def split: if_splits sum.splits)

lemma read_grid_Inr_reads:
  "read_grid data off sts acc = Inr r \<Longrightarrow> (s, t) \<in> set sts \<Longrightarrow>
   \<exists>v. unpack_I data (off + (s * 4 + t) * 4) = Inr v"
  by (induction sts arbitrary: acc) (auto split: sum.splits)

lemma read_grid_Inr_len:
  assumes "read_grid data off grid_indices acc = Inr r" "0 \<le> off"
  shows "off + 256 \<le> len_bytes data"
proof -
  have "(15, 3) \<in> set grid_indices" by (simp add: set_grid_indices)
  then obtain v where "unpack_I data (off + (15 * 4 + 3) * 4) = Inr v"
    using read_grid_Inr_reads [OF assms(1)] by blast
  then show ?thesis using unpack_I_Inr_len [of data "off + (15 * 4 + 3) * 4" v] assms(2) by simp
qed

lemma read_size_array_Inr_len:
  assumes "read_size_array data (shape_of_version v) ao = Inr info" "0 \<le> ao"
  shows "ao + header_bytes (shape_of_version v) \<le> len_bytes data"
proof (cases "v \<ge> 0x1005")
  case True
  then have sh: "shape_of_version v = \<lparr>n_entries = 146, has_mtlopac = True, mtlopac_count = 16\<rparr>"
    by (simp add: shape_of_version_def)
  obtain imgs where "read_grid data (ao + 8 + 16 * 4 + 16 * 4 * 4) grid_indices [] = Inr imgs"
    using assms(1) unfolding sh read_size_array_def Let_def
    by (auto split: sum.splits)
  from read_grid_Inr_len [OF this] assms(2) show ?thesis by (simp add: sh header_bytes_def)
next
  case False
  then have sh: "shape_of_version v = \<lparr>n_entries = 130, has_mtlopac = False, mtlopac_count = 0\<rparr>"
    by (simp add: shape_of_version_def)
  obtain imgs where "read_grid data (ao + 8 + 16 * 4 * 4) grid_indices [] = Inr imgs"
    using assms(1) unfolding sh read_size_array_def Let_def
    by (auto split: sum.splits)
  from read_grid_Inr_len [OF this] assms(2) show ?thesis by (simp add: sh header_bytes_def)
qed

lemma read_size_array_no_opacity:
  "read_size_array data \<lparr>n_entries = 130, has_mtlopac = False, mtlopac_count = 0\<rparr> ao = Inr info
   \<Longrightarrow> mtlopac_sizes info = []"
  by (auto simp: read_size_array_def Let_def split: sum.splits)

lemma unpack_III_fits:
  assumes "0 \<le> off" "unpack_III data off = Inr e"
  shows "\<not> off + 12 > len_bytes data"
  using assms by (auto simp: unpack_III_def struct_bytes_def Let_def split: if_splits sum.splits)

lemma lmo_object_short:
  assumes "unpack_III data t = Inr (ty, addr, sz)" "addr + 116 > len_bytes data"
  shows "lmo_object data sh t = Inr None"
  using assms by (simp add: lmo_object_def)

section \<open>Properties of the LMO animation parser\<close>

text \<open>
  Claim C10. For every byte sequence the container decoder terminates and returns a
  list without raising: in the model every \<open>struct.unpack_from\<close> can fail with
  \<open>StructError\<close>, and no read of \<open>parse_lmo_animations\<close> ever does, because each one
  is covered by the bounds check before it. The check before the size array is
  exact: the reads of the array at a non-negative offset all succeed if and only if
  \<open>n_entries * 4\<close> bytes from that offset fit the buffer, the last read ending at that
  bound.
\<close>

theorem container_decoder_never_raises:
  "(\<exists>results. parse_lmo_animations data = Inr results)
   \<and> (\<forall>v ao. 0 \<le> ao \<longrightarrow>
         ((\<exists>info. read_size_array data (shape_of_version v) ao = Inr info)
          \<longleftrightarrow> \<not> ao + header_bytes (shape_of_version v) > len_bytes data))"
proof -
  have "(\<exists>info. read_size_array data (shape_of_version v) ao = Inr info)
          \<longleftrightarrow> \<not> ao + header_bytes (shape_of_version v) > len_bytes data"
    if "0 \<le> ao" for v ao
    using read_size_array_ok [OF that, of v data] read_size_array_Inr_len [OF _ that, of data v]
    by (auto simp: not_less)
  then show ?thesis using parse_lmo_animations_total by blast
qed

theorem container_decoder_never_raises_witness:
  "parse_lmo_animations (sample_lmo 4 0 12 2) = Inr [(0, uv_info)]
   \<and> len_bytes (sample_lmo 4 0 12 2) = 748
   \<and> header_bytes (shape_of_version 0x1004) = 520
   \<and> read_size_array (sample_lmo 4 0 12 2) (shape_of_version 0x1004) 136 = Inr uv_info
   \<and> (\<exists>info. read_size_array (sample_lmo 4 0 12 2) (shape_of_version 0x1004) 228 = Inr info)
   \<and> \<not> (\<exists>info. read_size_array (sample_lmo 4 0 12 2) (shape_of_version 0x1004) 229 = Inr info)"
proof -
  have sh: "shape_of_version 0x1004 = \<lparr>n_entries = 130, has_mtlopac = False, mtlopac_count = 0\<rparr>"
    by (simp add: shape_of_version_def)
  have hb: "header_bytes (shape_of_version 0x1004) = 520" by (simp add: sh header_bytes_def)
  have t: "\<forall>v ao. 0 \<le> ao \<longrightarrow>
         ((\<exists>info. read_size_array (sample_lmo 4 0 12 2) (shape_of_version v) ao = Inr info)
          \<longleftrightarrow> \<not> ao + header_bytes (shape_of_version v) > len_bytes (sample_lmo 4 0 12 2))"
    using container_decoder_never_raises [of "sample_lmo 4 0 12 2"] by blast
  have a: "(\<exists>info. read_size_array (sample_lmo 4 0 12 2) (shape_of_version 0x1004) 228 = Inr info)
      \<longleftrightarrow> \<not> 228 + header_bytes (shape_of_version 0x1004) > len_bytes (sample_lmo 4 0 12 2)"
    using t by simp
  have b: "(\<exists>info. read_size_array (sample_lmo 4 0 12 2) (shape_of_version 0x1004) 229 = Inr info)
      \<longleftrightarrow> \<not> 229 + header_bytes (shape_of_version 0x1004) > len_bytes (sample_lmo 4 0 12 2)"
    using t by simp
  show ?thesis
    using a b unfolding hb len_sample_lmo
    by (simp add: sample_parse_130 sh sample_array_130)
qed

text \<open>
  Claim C5. On a buffer of at least 8 bytes, a version of 0 gives the empty result
  whatever the object count is, and an object count above 500 gives the empty result
  whatever else the buffer holds.
\<close>

theorem legacy_or_crowded_is_empty:
  assumes "len_bytes data \<ge> 8"
    and "unpack_I data 0 = Inr lmo_version" and "unpack_I data 4 = Inr obj_num"
    and "lmo_version = 0 \<or> obj_num > 500"
  shows "parse_lmo_animations data = Inr []"
  using assms by (auto simp: parse_lmo_animations_def)

theorem legacy_or_crowded_is_empty_witness:
  "len_bytes legacy_lmo \<ge> 8 \<and> unpack_I legacy_lmo 0 = Inr 0 \<and> unpack_I legacy_lmo 4 = Inr 1
   \<and> parse_lmo_animations legacy_lmo = Inr []
   \<and> len_bytes crowded_lmo \<ge> 8 \<and> unpack_I crowded_lmo 0 = Inr 0x1004
   \<and> unpack_I crowded_lmo 4 = Inr 501 \<and> parse_lmo_animations crowded_lmo = Inr []"
proof -
  have a: "len_bytes legacy_lmo \<ge> 8" "unpack_I legacy_lmo 0 = Inr 0" "unpack_I legacy_lmo 4 = Inr 1"
    by (simp_all add: legacy_lmo_def len_bytes_def unpack_I_def struct_bytes_def)
  have b: "len_bytes crowded_lmo \<ge> 8" "unpack_I crowded_lmo 0 = Inr 0x1004"
    "unpack_I crowded_lmo 4 = Inr 501"
    by (simp_all add: crowded_lmo_def len_bytes_def unpack_I_def struct_bytes_def)
  show ?thesis
    using a b legacy_or_crowded_is_empty [OF a(1) a(2) a(3)]
      legacy_or_crowded_is_empty [OF b(1) b(2) b(3)]
    by simp
qed

text \<open>
  Claim C3. For a version above 0 the header shape depends on the threshold \<open>0x1005\<close>
  alone: from \<open>0x1005\<close> on the decoder runs with 146 entries (584 bytes) and 16 opacity
  slots, below it with 130 entries (520 bytes) and no opacity channel, so that no
  reported table has an opacity entry; \<open>0x1004\<close> gets the first shape and \<open>0x1005\<close> the
  second.
\<close>

theorem header_shape_by_threshold:
  assumes "len_bytes data \<ge> 8"
    and "unpack_I data 0 = Inr lmo_version" and "unpack_I data 4 = Inr obj_num"
    and "lmo_version > 0" and "obj_num \<le> 500"
  shows "(lmo_version \<ge> 0x1005 \<longrightarrow>
            parse_lmo_animations data =
              lmo_loop data \<lparr>n_entries = 146, has_mtlopac = True, mtlopac_count = 16\<rparr>
                (py_range obj_num) []
          \<and> header_bytes \<lparr>n_entries = 146, has_mtlopac = True, mtlopac_count = 16\<rparr> = 584)
       \<and> (lmo_version < 0x1005 \<longrightarrow>
            parse_lmo_animations data =
              lmo_loop data \<lparr>n_entries = 130, has_mtlopac = False, mtlopac_count = 0\<rparr>
                (py_range obj_num) []
          \<and> header_bytes \<lparr>n_entries = 130, has_mtlopac = False, mtlopac_count = 0\<rparr> = 520
          \<and> (\<forall>results. parse_lmo_animations data = Inr results \<longrightarrow>
                (\<forall>(i, info)\<in>set results. mtlopac_sizes info = [])))
       \<and> shape_of_version 0x1004 = \<lparr>n_entries = 130, has_mtlopac = False, mtlopac_count = 0\<rparr>
       \<and> shape_of_version 0x1005 = \<lparr>n_entries = 146, has_mtlopac = True, mtlopac_count = 16\<rparr>"
proof -
  have p: "parse_lmo_animations data =
      lmo_loop data (shape_of_version lmo_version) (py_range obj_num) []"
    using assms by (simp add: parse_lmo_animations_def)
  have hi: "lmo_version \<ge> 0x1005 \<Longrightarrow>
      shape_of_version lmo_version = \<lparr>n_entries = 146, has_mtlopac = True, mtlopac_count = 16\<rparr>"
    by (simp add: shape_of_version_def)
  have lo: "lmo_version < 0x1005 \<Longrightarrow>
      shape_of_version lmo_version = \<lparr>n_entries = 130, has_mtlopac = False, mtlopac_count = 0\<rparr>"
    by (simp add: shape_of_version_def)
  have no_opac: "mtlopac_sizes info = []"
    if lt: "lmo_version < 0x1005" and pr: "parse_lmo_animations data = Inr results"
      and mem: "(i, info) \<in> set results"
    for results i info
  proof -
    obtain v where "v \<noteq> 0" "unpack_I data 0 = Inr v"
      "lmo_object data (shape_of_version v) (8 + i * 12) = Inr (Some info)"
      using parse_member_object [OF pr mem] by blast
    then have "lmo_object data \<lparr>n_entries = 130, has_mtlopac = False, mtlopac_count = 0\<rparr>
        (8 + i * 12) = Inr (Some info)"
      using assms(2) lo [OF lt] by simp
    then show ?thesis
      using lmo_object_Some read_size_array_no_opacity by blast
  qed
  show ?thesis
    using p hi lo no_opac by (auto simp: header_bytes_def shape_of_version_def)
qed

theorem header_shape_by_threshold_witness:
  "unpack_I (sample_lmo 4 0 12 2) 0 = Inr 0x1004
   \<and> parse_lmo_animations (sample_lmo 4 0 12 2) =
       lmo_loop (sample_lmo 4 0 12 2) \<lparr>n_entries = 130, has_mtlopac = False, mtlopac_count = 0\<rparr>
         (py_range 1) []
   \<and> parse_lmo_animations (sample_lmo 4 0 12 2) = Inr [(0, uv_info)]
   \<and> mtlopac_sizes uv_info = []
   \<and> unpack_I (sample_lmo 5 0 76 2) 0 = Inr 0x1005
   \<and> parse_lmo_animations (sample_lmo 5 0 76 2) =
       lmo_loop (sample_lmo 5 0 76 2) \<lparr>n_entries = 146, has_mtlopac = True, mtlopac_count = 16\<rparr>
         (py_range 1) []
   \<and> parse_lmo_animations (sample_lmo 5 0 76 2) = Inr [(0, opac_info)]
   \<and> mtlopac_sizes opac_info = [(0, 4)]"
proof -
  have l: "len_bytes (sample_lmo ver d a0 a1) \<ge> 8" for ver d a0 a1
    by (simp add: len_sample_lmo)
  have v4: "unpack_I (sample_lmo 4 0 12 2) 0 = Inr 0x1004"
    and v5: "unpack_I (sample_lmo 5 0 76 2) 0 = Inr 0x1005"
    by (simp_all add: sample_version)
  have a: "parse_lmo_animations (sample_lmo 4 0 12 2) =
       lmo_loop (sample_lmo 4 0 12 2) \<lparr>n_entries = 130, has_mtlopac = False, mtlopac_count = 0\<rparr>
         (py_range 1) []"
    using header_shape_by_threshold [OF l v4 sample_obj_num] by simp
  have b: "parse_lmo_animations (sample_lmo 5 0 76 2) =
       lmo_loop (sample_lmo 5 0 76 2) \<lparr>n_entries = 146, has_mtlopac = True, mtlopac_count = 16\<rparr>
         (py_range 1) []"
    using header_shape_by_threshold [OF l v5 sample_obj_num] by simp
  show ?thesis
    using a b v4 v5 sample_parse_130 [of 0] sample_parse_146 [of 0]
    by (simp add: uv_info_def opac_info_def)
qed

text \<open>
  Claim C2. For every container buffer, a size table is reported for entry \<open>i\<close> only
  if the size equation holds exactly for the animation size read from the header of
  that object. When the decoder examines the object table, the result is the
  concatenation of what each entry that is read contributes, and an entry whose size
  array fails the equation contributes nothing.
\<close>

theorem size_equation_enforced:
  "\<exists>results. parse_lmo_animations data = Inr results
     \<and> (\<forall>(i, info)\<in>set results. \<exists>lmo_version addr sz mtl mesh helper anim_size.
            unpack_I data 0 = Inr lmo_version
          \<and> unpack_III data (8 + i * 12) = Inr (OBJ_TYPE_GEOMETRY, addr, sz)
          \<and> unpack_IIII data (addr + 100) = Inr (mtl, mesh, helper, anim_size)
          \<and> read_size_array data (shape_of_version lmo_version)
                (addr + 116 + mtl + mesh + helper) = Inr info
          \<and> size_equation (shape_of_version lmo_version) info anim_size)
     \<and> (\<forall>lmo_version obj_num.
            len_bytes data \<ge> 8 \<and> unpack_I data 0 = Inr lmo_version
          \<and> unpack_I data 4 = Inr obj_num \<and> lmo_version \<noteq> 0 \<and> obj_num \<le> 500
          \<longrightarrow> results = concat (map (object_result data (shape_of_version lmo_version))
                          (takeWhile (entry_fits data) (py_range obj_num)))
            \<and> (\<forall>i addr sz mtl mesh helper anim_size info.
                   unpack_III data (8 + i * 12) = Inr (OBJ_TYPE_GEOMETRY, addr, sz)
                 \<and> unpack_IIII data (addr + 100) = Inr (mtl, mesh, helper, anim_size)
                 \<and> read_size_array data (shape_of_version lmo_version)
                       (addr + 116 + mtl + mesh + helper) = Inr info
                 \<and> \<not> size_equation (shape_of_version lmo_version) info anim_size
                 \<longrightarrow> object_result data (shape_of_version lmo_version) i = []))"
proof -
  obtain results where p: "parse_lmo_animations data = Inr results"
    using parse_lmo_animations_total by blast
  have a: "\<exists>lmo_version addr sz mtl mesh helper anim_size.
            unpack_I data 0 = Inr lmo_version
          \<and> unpack_III data (8 + i * 12) = Inr (OBJ_TYPE_GEOMETRY, addr, sz)
          \<and> unpack_IIII data (addr + 100) = Inr (mtl, mesh, helper, anim_size)
          \<and> read_size_array data (shape_of_version lmo_version)
                (addr + 116 + mtl + mesh + helper) = Inr info
          \<and> size_equation (shape_of_version lmo_version) info anim_size"
    if mem: "(i, info) \<in> set results" for i info
  proof -
    obtain v where v: "unpack_I data 0 = Inr v"
      and o: "lmo_object data (shape_of_version v) (8 + i * 12) = Inr (Some info)"
      using parse_member_object [OF p mem] by blast
    from lmo_object_Some [OF o] v show ?thesis by blast
  qed
  have b: "results = concat (map (object_result data (shape_of_version lmo_version))
                          (takeWhile (entry_fits data) (py_range obj_num)))"
    if "len_bytes data \<ge> 8" "unpack_I data 0 = Inr lmo_version"
      "unpack_I data 4 = Inr obj_num" "lmo_version \<noteq> 0" "obj_num \<le> 500"
    for lmo_version obj_num
  proof -
    have "\<not> len_bytes data < 8" "\<not> obj_num > 500" using that by simp_all
    from parse_lmo_animations_concat [OF that(2,3) this(1) that(4) this(2)] p
    show ?thesis by simp
  qed
  have c: "object_result data sh i = []"
    if e: "unpack_III data (8 + i * 12) = Inr (OBJ_TYPE_GEOMETRY, addr, sz)"
      and h: "unpack_IIII data (addr + 100) = Inr (mtl, mesh, helper, anim_size)"
      and r: "read_size_array data sh (addr + 116 + mtl + mesh + helper) = Inr info"
      and ne: "\<not> size_equation sh info anim_size"
    for sh i addr sz mtl mesh helper anim_size info
  proof -
    have "lmo_object data sh (8 + i * 12) = Inr None"
      using e h r ne by (simp add: lmo_object_def Let_def size_equation_total)
    then show ?thesis by (simp add: object_result_def)
  qed
  have A: "\<forall>(i, info)\<in>set results. \<exists>lmo_version addr sz mtl mesh helper anim_size.
            unpack_I data 0 = Inr lmo_version
          \<and> unpack_III data (8 + i * 12) = Inr (OBJ_TYPE_GEOMETRY, addr, sz)
          \<and> unpack_IIII data (addr + 100) = Inr (mtl, mesh, helper, anim_size)
          \<and> read_size_array data (shape_of_version lmo_version)
                (addr + 116 + mtl + mesh + helper) = Inr info
          \<and> size_equation (shape_of_version lmo_version) info anim_size"
    using a by blast
  have B: "\<forall>lmo_version obj_num.
            len_bytes data \<ge> 8 \<and> unpack_I data 0 = Inr lmo_version
          \<and> unpack_I data 4 = Inr obj_num \<and> lmo_version \<noteq> 0 \<and> obj_num \<le> 500
          \<longrightarrow> results = concat (map (object_result data (shape_of_version lmo_version))
                          (takeWhile (entry_fits data) (py_range obj_num)))
            \<and> (\<forall>i addr sz mtl mesh helper anim_size info.
                   unpack_III data (8 + i * 12) = Inr (OBJ_TYPE_GEOMETRY, addr, sz)
                 \<and> unpack_IIII data (addr + 100) = Inr (mtl, mesh, helper, anim_size)
                 \<and> read_size_array data (shape_of_version lmo_version)
                       (addr + 116 + mtl + mesh + helper) = Inr info
                 \<and> \<not> size_equation (shape_of_version lmo_version) info anim_size
                 \<longrightarrow> object_result data (shape_of_version lmo_version) i = [])"
    using b c by blast
  from p A B show ?thesis by blast
qed

theorem size_equation_enforced_witness:
  "parse_lmo_animations (sample_lmo 4 0 12 2) = Inr [(0, uv_info)]
   \<and> unpack_IIII (sample_lmo 4 0 12 2) 120 = Inr (0, 0, 0, 524)
   \<and> size_equation (shape_of_version 0x1004) uv_info 524
   \<and> unpack_IIII (sample_lmo 4 0 13 2) 120 = Inr (0, 0, 0, 525)
   \<and> read_size_array (sample_lmo 4 0 13 2) (shape_of_version 0x1004) 136 = Inr uv_info
   \<and> \<not> size_equation (shape_of_version 0x1004) uv_info 525
   \<and> object_result (sample_lmo 4 0 13 2) (shape_of_version 0x1004) 0 = []
   \<and> parse_lmo_animations (sample_lmo 4 0 13 2) = Inr []"
proof -
  have l: "len_bytes (sample_lmo 4 0 a0 2) \<ge> 8" for a0 by (simp add: len_sample_lmo)
  have v: "unpack_I (sample_lmo 4 0 a0 2) 0 = Inr 0x1004" for a0 by (simp add: sample_version)
  have sh: "shape_of_version 0x1004 = \<lparr>n_entries = 130, has_mtlopac = False, mtlopac_count = 0\<rparr>"
    by (simp add: shape_of_version_def)
  have e: "unpack_III (sample_lmo 4 0 a0 2) (8 + 0 * 12) = Inr (OBJ_TYPE_GEOMETRY, 20, 0)" for a0
    by (simp add: sample_entry)
  have h12: "unpack_IIII (sample_lmo 4 0 12 2) 120 = Inr (0, 0, 0, 524)"
    and h13: "unpack_IIII (sample_lmo 4 0 13 2) 120 = Inr (0, 0, 0, 525)"
    by (simp_all add: sample_sizes)
  have h13': "unpack_IIII (sample_lmo 4 0 13 2) (20 + 100) = Inr (0, 0, 0, 525)"
    using h13 by simp
  have r: "read_size_array (sample_lmo 4 0 a0 2) (shape_of_version 0x1004) 136 = Inr uv_info" for a0
    by (simp add: sh sample_array_130)
  have r': "read_size_array (sample_lmo 4 0 13 2) (shape_of_version 0x1004) (20 + 116 + 0 + 0 + 0)
      = Inr uv_info"
    using r [of 13] by simp
  have bad: "\<not> size_equation (shape_of_version 0x1004) uv_info 525"
    by (simp add: sh size_equation_def uv_info_def)
  obtain rs13 where
    B13: "\<forall>lmo_version obj_num.
            len_bytes (sample_lmo 4 0 13 2) \<ge> 8 \<and> unpack_I (sample_lmo 4 0 13 2) 0 = Inr lmo_version
          \<and> unpack_I (sample_lmo 4 0 13 2) 4 = Inr obj_num \<and> lmo_version \<noteq> 0 \<and> obj_num \<le> 500
          \<longrightarrow> rs13 = concat (map (object_result (sample_lmo 4 0 13 2) (shape_of_version lmo_version))
                          (takeWhile (entry_fits (sample_lmo 4 0 13 2)) (py_range obj_num)))
            \<and> (\<forall>i addr sz mtl mesh helper anim_size info.
                   unpack_III (sample_lmo 4 0 13 2) (8 + i * 12) = Inr (OBJ_TYPE_GEOMETRY, addr, sz)
                 \<and> unpack_IIII (sample_lmo 4 0 13 2) (addr + 100) = Inr (mtl, mesh, helper, anim_size)
                 \<and> read_size_array (sample_lmo 4 0 13 2) (shape_of_version lmo_version)
                       (addr + 116 + mtl + mesh + helper) = Inr info
                 \<and> \<not> size_equation (shape_of_version lmo_version) info anim_size
                 \<longrightarrow> object_result (sample_lmo 4 0 13 2) (shape_of_version lmo_version) i = [])"
    using size_equation_enforced [of "sample_lmo 4 0 13 2"] by blast
  have hdr: "len_bytes (sample_lmo 4 0 13 2) \<ge> 8 \<and> unpack_I (sample_lmo 4 0 13 2) 0 = Inr 0x1004
      \<and> unpack_I (sample_lmo 4 0 13 2) 4 = Inr 1 \<and> (0x1004 :: int) \<noteq> 0 \<and> (1 :: int) \<le> 500"
    using l v sample_obj_num by simp
  from B13 hdr have
    C13: "\<forall>i addr sz mtl mesh helper anim_size info.
                   unpack_III (sample_lmo 4 0 13 2) (8 + i * 12) = Inr (OBJ_TYPE_GEOMETRY, addr, sz)
                 \<and> unpack_IIII (sample_lmo 4 0 13 2) (addr + 100) = Inr (mtl, mesh, helper, anim_size)
                 \<and> read_size_array (sample_lmo 4 0 13 2) (shape_of_version 0x1004)
                       (addr + 116 + mtl + mesh + helper) = Inr info
                 \<and> \<not> size_equation (shape_of_version 0x1004) info anim_size
                 \<longrightarrow> object_result (sample_lmo 4 0 13 2) (shape_of_version 0x1004) i = []"
    by blast
  have o13: "object_result (sample_lmo 4 0 13 2) (shape_of_version 0x1004) 0 = []"
    using C13 e [of 13] h13' r' bad by blast
  obtain rs12 where p12: "parse_lmo_animations (sample_lmo 4 0 12 2) = Inr rs12"
    and A12: "\<forall>(i, info)\<in>set rs12. \<exists>lmo_version addr sz mtl mesh helper anim_size.
            unpack_I (sample_lmo 4 0 12 2) 0 = Inr lmo_version
          \<and> unpack_III (sample_lmo 4 0 12 2) (8 + i * 12) = Inr (OBJ_TYPE_GEOMETRY, addr, sz)
          \<and> unpack_IIII (sample_lmo 4 0 12 2) (addr + 100) = Inr (mtl, mesh, helper, anim_size)
          \<and> read_size_array (sample_lmo 4 0 12 2) (shape_of_version lmo_version)
                (addr + 116 + mtl + mesh + helper) = Inr info
          \<and> size_equation (shape_of_version lmo_version) info anim_size"
    using size_equation_enforced [of "sample_lmo 4 0 12 2"] by blast
  have "rs12 = [(0, uv_info)]" using p12 sample_parse_130 [of 0] by simp
  then obtain lmo_version addr sz mtl mesh helper anim_size where
    w: "unpack_I (sample_lmo 4 0 12 2) 0 = Inr lmo_version"
      "unpack_III (sample_lmo 4 0 12 2) (8 + 0 * 12) = Inr (OBJ_TYPE_GEOMETRY, addr, sz)"
      "unpack_IIII (sample_lmo 4 0 12 2) (addr + 100) = Inr (mtl, mesh, helper, anim_size)"
      "size_equation (shape_of_version lmo_version) uv_info anim_size"
    using A12 by auto
  have "lmo_version = 0x1004" using w(1) v [of 12] by simp
  moreover have "addr = 20" using w(2) e [of 12] by simp
  ultimately have ok: "size_equation (shape_of_version 0x1004) uv_info 524"
    using w(3,4) h12 by simp
  show ?thesis
    using h12 h13 r ok bad o13 sample_parse_130 [of 0] sample_parse_130_mismatch [of 0] by simp
qed

text \<open>
  Claim C4, as stated, fails: the decoder reads the declared size of a table entry and
  never uses it. The entry below declares \<open>0xFFFFFFFF\<close> bytes from offset 20 in a file
  of 748 bytes, and its size table is reported.
\<close>

theorem declared_region_beyond_file_counterexample:
  "unpack_III (sample_lmo 4 255 12 2) 8 = Inr (OBJ_TYPE_GEOMETRY, 20, 4294967295)
   \<and> 20 + 4294967295 > len_bytes (sample_lmo 4 255 12 2)
   \<and> parse_lmo_animations (sample_lmo 4 255 12 2) = Inr [(0, uv_info)]"
  by (simp add: sample_entry len_sample_lmo sample_parse_130)

text \<open>
  Claim C4, amended. A table entry whose 116-byte object header would end beyond the
  file (\<open>addr + 116 > len(data)\<close>) is skipped: the loop goes on with the remaining
  entries and the results collected so far, and no size table is reported for it.
\<close>

theorem short_region_skipped:
  assumes "0 \<le> i" and "unpack_III data (8 + i * 12) = Inr (ty, addr, sz)"
    and "addr + 116 > len_bytes data"
  shows "lmo_loop data sh (i # is) results = lmo_loop data sh is results
     \<and> (\<forall>rs info. parse_lmo_animations data = Inr rs \<longrightarrow> (i, info) \<notin> set rs)"
proof -
  have none: "lmo_object data sh' (8 + i * 12) = Inr None" for sh'
    using assms(2,3) by (rule lmo_object_short)
  have fits: "\<not> 8 + i * 12 + 12 > len_bytes data"
    using assms(1,2) unpack_III_fits [of "8 + i * 12" data] by simp
  have "lmo_loop data sh (i # is) results = lmo_loop data sh is results"
    using fits none by simp
  moreover have "(i, info) \<notin> set rs" if "parse_lmo_animations data = Inr rs" for rs info
    using parse_member_object [OF that, of i info] none by auto
  ultimately show ?thesis by blast
qed

theorem short_region_skipped_witness:
  "unpack_III truncated_lmo (8 + 0 * 12) = Inr (1, 200, 0)
   \<and> 200 + 116 > len_bytes truncated_lmo
   \<and> lmo_loop truncated_lmo (shape_of_version 0x1004) [0] [] = Inr []
   \<and> parse_lmo_animations truncated_lmo = Inr []"
proof -
  have e: "unpack_III truncated_lmo (8 + 0 * 12) = Inr (1, 200, 0)"
    by (simp add: truncated_lmo_def unpack_III_def struct_bytes_def len_bytes_def)
  have l: "200 + 116 > len_bytes truncated_lmo"
    by (simp add: truncated_lmo_def len_bytes_def)
  have p: "parse_lmo_animations truncated_lmo = lmo_loop truncated_lmo (shape_of_version 0x1004) [0] []"
    by (simp add: parse_lmo_animations_def truncated_lmo_def unpack_I_def struct_bytes_def
        len_bytes_def py_range_1)
  show ?thesis
    using e l p short_region_skipped [OF _ e l, of "shape_of_version 0x1004" "[]" "[]"] by simp
qed

lemma take_drop_cong:
  assumes "length d1 = length d2"
    and "\<And>j. j < n \<Longrightarrow> k + j < length d1 \<Longrightarrow> d1 ! (k + j) = d2 ! (k + j)"
  shows "take n (drop k d1) = take n (drop k d2)"
proof (rule nth_equalityI)
  show "length (take n (drop k d1)) = length (take n (drop k d2))"
    using assms(1) by simp
next
  fix j assume "j < length (take n (drop k d1))"
  then have "j < n" "k + j < length d1" by auto
  then show "take n (drop k d1) ! j = take n (drop k d2) ! j"
    using assms by simp
qed

lemma agree_struct_bytes:
  assumes "agree_from p d1 d2" "int p \<le> off"
  shows "struct_bytes n d1 off = struct_bytes n d2 off"
proof -
  have len: "length d1 = length d2" using assms(1) by (simp add: agree_from_def)
  have "take n (drop (nat off) d1) = take n (drop (nat off) d2)"
  proof (rule take_drop_cong [OF len])
    fix j assume "nat off + j < length d1"
    moreover have "p \<le> nat off + j" using assms(2) by simp
    ultimately show "d1 ! (nat off + j) = d2 ! (nat off + j)"
      using assms(1) by (simp add: agree_from_def)
  qed
  moreover have "0 \<le> off" using assms(2) by simp
  ultimately show ?thesis using len by (simp add: struct_bytes_def len_bytes_def Let_def)
qed

lemma agree_unpack_I:
  "agree_from p d1 d2 \<Longrightarrow> int p \<le> off \<Longrightarrow> unpack_I d1 off = unpack_I d2 off"
  by (simp add: unpack_I_def agree_struct_bytes [of p d1 d2 off])

lemma agree_unpack_IIII:
  "agree_from p d1 d2 \<Longrightarrow> int p \<le> off \<Longrightarrow> unpack_IIII d1 off = unpack_IIII d2 off"
  by (simp add: unpack_IIII_def agree_struct_bytes [of p d1 d2 off])

lemma agree_read_mtlopac:
  assumes "agree_from p d1 d2" "int p \<le> off" "\<forall>s\<in>set ss. 0 \<le> s"
  shows "read_mtlopac d1 off ss acc = read_mtlopac d2 off ss acc"
  using assms(3)
proof (induction ss arbitrary: acc)
  case Nil
  then show ?case by simp
next
  case (Cons s ss)
  have "unpack_I d1 (off + s * 4) = unpack_I d2 (off + s * 4)"
    using Cons.prems assms(2) by (intro agree_unpack_I [OF assms(1)]) simp
  then show ?case using Cons by (simp split: sum.splits)
qed

lemma agree_read_grid:
  assumes "agree_from p d1 d2" "int p \<le> off" "\<forall>(s, t)\<in>set sts. 0 \<le> s \<and> 0 \<le> t"
  shows "read_grid d1 off sts acc = read_grid d2 off sts acc"
  using assms(3)
proof (induction sts arbitrary: acc)
  case Nil
  then show ?case by simp
next
  case (Cons st sts)
  obtain s t where st: "st = (s, t)" by (cases st)
  have "unpack_I d1 (off + (s * 4 + t) * 4) = unpack_I d2 (off + (s * 4 + t) * 4)"
    using Cons.prems assms(2) st by (intro agree_unpack_I [OF assms(1)]) simp
  then show ?case using Cons st by (simp split: sum.splits)
qed

lemma agree_read_grid_indices:
  assumes "agree_from p d1 d2" "int p \<le> off"
  shows "read_grid d1 off grid_indices acc = read_grid d2 off grid_indices acc"
  by (rule agree_read_grid [OF assms]) (auto simp: set_grid_indices)

lemma agree_read_size_array:
  assumes "agree_from p d1 d2" "int p \<le> ao" "0 \<le> mtlopac_count sh"
  shows "read_size_array d1 sh ao = read_size_array d2 sh ao"
proof -
  have b: "unpack_I d1 ao = unpack_I d2 ao" "unpack_I d1 (ao + 4) = unpack_I d2 (ao + 4)"
    using assms by (auto intro: agree_unpack_I)
  have m: "read_mtlopac d1 (ao + 8) (py_range (mtlopac_count sh)) [] =
           read_mtlopac d2 (ao + 8) (py_range (mtlopac_count sh)) []"
    using assms by (intro agree_read_mtlopac [of p]) (auto simp: set_py_range)
  have g: "read_grid d1 off grid_indices [] = read_grid d2 off grid_indices []" if "ao \<le> off" for off
    using assms that by (intro agree_read_grid_indices [of p]) auto
  show ?thesis
  proof (cases "has_mtlopac sh")
    case True
    then show ?thesis
      using assms(3) by (simp add: read_size_array_def Let_def b m g split: sum.splits)
  next
    case False
    then show ?thesis
      by (simp add: read_size_array_def Let_def b g split: sum.splits)
  qed
qed

lemma differ_same_len:
  "differ_only_in_declared_size d1 d2 \<Longrightarrow> len_bytes d1 = len_bytes d2"
  by (simp add: differ_only_in_declared_size_def len_bytes_def)

lemma differ_nth:
  "differ_only_in_declared_size d1 d2 \<Longrightarrow> k < length d1 \<Longrightarrow> \<not> declared_size_byte d1 k
   \<Longrightarrow> d1 ! k = d2 ! k"
  by (auto simp: differ_only_in_declared_size_def)

lemma differ_head:
  assumes "differ_only_in_declared_size d1 d2"
  shows "take 4 d1 = take 4 d2" and "take 4 (drop 4 d1) = take 4 (drop 4 d2)"
proof -
  have len: "length d1 = length d2"
    using assms by (simp add: differ_only_in_declared_size_def)
  have eq: "d1 ! k = d2 ! k" if "k < 8" "k < length d1" for k
    using that by (intro differ_nth [OF assms]) (simp_all add: declared_size_byte_def)
  have "take 4 (drop 0 d1) = take 4 (drop 0 d2)"
    by (rule take_drop_cong [OF len]) (simp add: eq)
  then show "take 4 d1 = take 4 d2" by simp
  show "take 4 (drop 4 d1) = take 4 (drop 4 d2)"
    by (rule take_drop_cong [OF len]) (simp add: eq)
qed

lemma differ_entry_fields:
  assumes "differ_only_in_declared_size d1 d2"
  shows "take 8 (drop (8 + 12 * m) d1) = take 8 (drop (8 + 12 * m) d2)"
proof (rule take_drop_cong)
  show "length d1 = length d2"
    using assms by (simp add: differ_only_in_declared_size_def)
next
  fix j assume j: "j < 8" "8 + 12 * m + j < length d1"
  have "(12 * m + j) mod 12 = j" using j(1) by simp
  then have "\<not> declared_size_byte d1 (8 + 12 * m + j)"
    using j(1) by (simp add: declared_size_byte_def)
  then show "d1 ! (8 + 12 * m + j) = d2 ! (8 + 12 * m + j)"
    using j(2) by (intro differ_nth [OF assms])
qed

lemma take4_of_take8: "take 4 (take 12 xs) = take 4 (take 8 xs)"
  "take 4 (drop 4 (take 12 xs)) = take 4 (drop 4 (take 8 xs))"
  by (simp_all add: drop_take)

lemma differ_entry:
  assumes "differ_only_in_declared_size d1 d2" "0 \<le> i"
  shows "(\<exists>e. unpack_III d1 (8 + i * 12) = Inl e \<and> unpack_III d2 (8 + i * 12) = Inl e)
     \<or> (\<exists>ty addr sz sz'. unpack_III d1 (8 + i * 12) = Inr (ty, addr, sz)
                         \<and> unpack_III d2 (8 + i * 12) = Inr (ty, addr, sz'))"
proof (cases "8 + i * 12 + 12 > len_bytes d1")
  case True
  then show ?thesis
    using assms differ_same_len [OF assms(1)]
    by (simp add: unpack_III_def struct_bytes_def Let_def)
next
  case False
  have n: "nat (8 + i * 12) = 8 + 12 * nat i" using assms(2) by simp
  have f: "take 8 (drop (nat (8 + i * 12)) d1) = take 8 (drop (nat (8 + i * 12)) d2)"
    unfolding n by (rule differ_entry_fields [OF assms(1)])
  have s1: "struct_bytes 12 d1 (8 + i * 12) = Inr (take 12 (drop (nat (8 + i * 12)) d1))"
    using False assms(2) by (intro struct_bytes_ok) simp_all
  have s2: "struct_bytes 12 d2 (8 + i * 12) = Inr (take 12 (drop (nat (8 + i * 12)) d2))"
    using False assms(2) differ_same_len [OF assms(1)] by (intro struct_bytes_ok) simp_all
  show ?thesis
    unfolding unpack_III_def s1 s2 by (simp only: sum.case take4_of_take8 f) simp
qed

lemma differ_agree_from:
  assumes "differ_only_in_declared_size d1 d2" "0 \<le> n" "n = le_uint (take 4 (drop 4 d1))"
  shows "agree_from (nat (8 + 12 * n)) d1 d2"
proof -
  have "d1 ! k = d2 ! k" if k: "nat (8 + 12 * n) \<le> k" "k < length d1" for k
  proof (rule differ_nth [OF assms(1) k(2)])
    have "12 * nat n \<le> k - 8" using k(1) assms(2) by simp
    then have "nat n \<le> (k - 8) div 12" by simp
    then have "\<not> int ((k - 8) div 12) < n" using assms(2) by simp
    then show "\<not> declared_size_byte d1 k" by (simp add: declared_size_byte_def assms(3))
  qed
  then show ?thesis
    using assms(1) by (simp add: agree_from_def differ_only_in_declared_size_def)
qed

lemma shape_count_nonneg: "0 \<le> mtlopac_count (shape_of_version v)"
  by (simp add: shape_of_version_def)

lemma differ_lmo_object:
  assumes d: "differ_only_in_declared_size d1 d2" and b: "objects_beyond_table d1"
    and i: "0 \<le> i" "i < le_uint (take 4 (drop 4 d1))"
  shows "lmo_object d1 (shape_of_version v) (8 + i * 12) =
         lmo_object d2 (shape_of_version v) (8 + i * 12)"
proof -
  let ?n = "le_uint (take 4 (drop 4 d1))"
  let ?sh = "shape_of_version v"
  have len: "len_bytes d1 = len_bytes d2" by (rule differ_same_len [OF d])
  from differ_entry [OF d i(1)] show ?thesis
  proof (elim disjE exE conjE)
    fix e assume "unpack_III d1 (8 + i * 12) = Inl e" "unpack_III d2 (8 + i * 12) = Inl e"
    then show ?thesis by (simp add: lmo_object_def)
  next
    fix ty addr sz sz'
    assume e1: "unpack_III d1 (8 + i * 12) = Inr (ty, addr, sz)"
      and e2: "unpack_III d2 (8 + i * 12) = Inr (ty, addr, sz')"
    show ?thesis
    proof (cases "ty \<noteq> OBJ_TYPE_GEOMETRY \<or> addr + 116 > len_bytes d1")
      case True
      then show ?thesis using e1 e2 len by (auto simp: lmo_object_def)
    next
      case False
      have "i \<in> set (py_range ?n)" using i by (simp add: set_py_range)
      then have far: "8 + 12 * ?n \<le> addr + 100"
        using b e1 False by (auto simp: objects_beyond_table_def Let_def)
      have n0: "0 \<le> ?n" by (rule le_uint_nonneg)
      have ag: "agree_from (nat (8 + 12 * ?n)) d1 d2"
        by (rule differ_agree_from [OF d n0 refl])
      have p: "int (nat (8 + 12 * ?n)) \<le> addr + 100" using far n0 by simp
      have h: "unpack_IIII d1 (addr + 100) = unpack_IIII d2 (addr + 100)"
        by (rule agree_unpack_IIII [OF ag p])
      have a0: "0 \<le> addr + 100" using far n0 by simp
      have fit: "addr + 100 + 16 \<le> len_bytes d1" using False by simp
      obtain mtl mesh helper anim where
        h1: "unpack_IIII d1 (addr + 100) = Inr (mtl, mesh, helper, anim)"
        and nn: "0 \<le> mtl" "0 \<le> mesh" "0 \<le> helper"
        using unpack_IIII_ok [OF a0 fit] by blast
      have r: "read_size_array d1 ?sh (addr + 116 + mtl + mesh + helper) =
               read_size_array d2 ?sh (addr + 116 + mtl + mesh + helper)"
        using p nn by (intro agree_read_size_array [OF ag _ shape_count_nonneg]) simp
      have h2: "unpack_IIII d2 (addr + 100) = Inr (mtl, mesh, helper, anim)"
        using h h1 by simp
      show ?thesis
        unfolding lmo_object_def e1 e2 Let_def
        by (simp add: len h1 h2 r)
    qed
  qed
qed

lemma differ_lmo_loop:
  assumes d: "differ_only_in_declared_size d1 d2" and b: "objects_beyond_table d1"
  shows "\<forall>i\<in>set is. 0 \<le> i \<and> i < le_uint (take 4 (drop 4 d1)) \<Longrightarrow>
    lmo_loop d1 (shape_of_version v) is acc = lmo_loop d2 (shape_of_version v) is acc"
proof (induction "is" arbitrary: acc)
  case Nil
  then show ?case by simp
next
  case (Cons i "is")
  have o: "lmo_object d1 (shape_of_version v) (8 + i * 12) =
           lmo_object d2 (shape_of_version v) (8 + i * 12)"
    using Cons.prems by (intro differ_lmo_object [OF d b]) simp_all
  have IH: "lmo_loop d1 (shape_of_version v) is acc' = lmo_loop d2 (shape_of_version v) is acc'"
    for acc' using Cons by simp
  show ?case
    using differ_same_len [OF d] o IH by (simp add: Let_def split: sum.splits option.splits)
qed

lemma length_alias_head: "length (alias_head a0 a1) = 128"
  by (simp add: alias_head_def)

lemma len_alias_lmo: "len_bytes (alias_lmo a0 a1) = 728"
  by (simp add: alias_lmo_def len_bytes_def length_alias_head)

lemma alias_version: "unpack_I (alias_lmo a0 a1) 0 = Inr 0x1004"
  by (simp add: unpack_I_def alias_lmo_def struct_bytes_prefix length_alias_head)
     (simp add: alias_head_def)

lemma alias_obj_num: "unpack_I (alias_lmo a0 a1) 4 = Inr 9"
  by (simp add: unpack_I_def alias_lmo_def struct_bytes_prefix length_alias_head)
     (simp add: alias_head_def)

lemma alias_entry_0: "unpack_III (alias_lmo a0 a1) 8 = Inr (OBJ_TYPE_GEOMETRY, 0, 0)"
  by (simp add: unpack_III_def alias_lmo_def struct_bytes_prefix length_alias_head)
     (simp add: alias_head_def OBJ_TYPE_GEOMETRY_def)

lemma alias_entry_others:
  "unpack_III (alias_lmo a0 a1) 20 = Inr (0, 0, 0)"
  "unpack_III (alias_lmo a0 a1) 32 = Inr (0, 0, 0)"
  "unpack_III (alias_lmo a0 a1) 44 = Inr (0, 0, 0)"
  "unpack_III (alias_lmo a0 a1) 56 = Inr (0, 0, 0)"
  "unpack_III (alias_lmo a0 a1) 68 = Inr (0, 0, 0)"
  "unpack_III (alias_lmo a0 a1) 80 = Inr (0, 0, 0)"
  "unpack_III (alias_lmo a0 a1) 92 = Inr (0, 0, 0)"
  "unpack_III (alias_lmo a0 a1) 104 = Inr (0, 0, uint a0 + 256 * uint a1)"
  by (simp_all add: unpack_III_def alias_lmo_def struct_bytes_prefix length_alias_head)
     (simp_all add: alias_head_def le_uint_zeros)

lemma alias_sizes:
  "unpack_IIII (alias_lmo a0 a1) 100 = Inr (0, 0, 0, uint a0 + 256 * uint a1)"
  by (simp add: unpack_IIII_def alias_lmo_def struct_bytes_prefix length_alias_head)
     (simp add: alias_head_def le_uint_zeros)

lemma alias_bone: "unpack_I (alias_lmo a0 a1) 116 = Inr 0"
  by (simp add: unpack_I_def alias_lmo_def struct_bytes_prefix length_alias_head)
     (simp add: alias_head_def)

lemma alias_mat: "unpack_I (alias_lmo a0 a1) 120 = Inr 0"
  by (simp add: unpack_I_def alias_lmo_def struct_bytes_prefix length_alias_head)
     (simp add: alias_head_def)

lemma alias_first: "unpack_I (alias_lmo a0 a1) 124 = Inr 4"
  by (simp add: unpack_I_def alias_lmo_def struct_bytes_prefix length_alias_head)
     (simp add: alias_head_def)

lemma alias_zero: "128 \<le> k \<Longrightarrow> k + 4 \<le> 728 \<Longrightarrow> unpack_I (alias_lmo a0 a1) k = Inr 0"
  unfolding alias_lmo_def by (rule unpack_I_zero_tail) (simp_all add: length_alias_head)

lemma alias_array:
  "read_size_array (alias_lmo a0 a1)
     \<lparr>n_entries = 130, has_mtlopac = False, mtlopac_count = 0\<rparr> 116 = Inr uv_info"
proof -
  have uv: "read_grid (alias_lmo a0 a1) 124 grid_indices [] = Inr [(0, 0, 4)]"
    by (rule read_grid_first_only) (simp_all add: alias_first alias_zero)
  have img: "read_grid (alias_lmo a0 a1) 380 grid_indices [] = Inr []"
    by (rule read_grid_all_zero) (simp add: alias_zero)
  show ?thesis
    by (simp add: read_size_array_def alias_bone alias_mat uv img uv_info_def)
qed

lemma alias_object_0:
  "lmo_object (alias_lmo a0 a1) \<lparr>n_entries = 130, has_mtlopac = False, mtlopac_count = 0\<rparr> 8 =
     Inr (if uint a0 + 256 * uint a1 = 524 then Some uv_info else None)"
  by (simp add: lmo_object_def alias_entry_0 len_alias_lmo alias_sizes header_bytes_def
      alias_array Let_def)
     (simp add: uv_info_def total_of_def)

lemma lmo_object_other_kind:
  "unpack_III data t = Inr (0, addr, sz) \<Longrightarrow> lmo_object data sh t = Inr None"
  by (simp add: lmo_object_def OBJ_TYPE_GEOMETRY_def)

lemma py_range_9: "py_range 9 = [0, 1, 2, 3, 4, 5, 6, 7, 8]"
  by code_simp

lemma alias_parse:
  "parse_lmo_animations (alias_lmo a0 a1) =
     Inr (if uint a0 + 256 * uint a1 = 524 then [(0, uv_info)] else [])"
  by (simp add: parse_lmo_animations_def len_alias_lmo alias_version alias_obj_num
      shape_of_version_def py_range_9 alias_object_0
      alias_entry_others [THEN lmo_object_other_kind])

lemma alias_differ: "differ_only_in_declared_size (alias_lmo 12 2) (alias_lmo 13 2)"
proof -
  have n: "le_uint (take 4 (drop 4 (alias_lmo 12 2))) = 9"
    by (simp add: alias_lmo_def alias_head_def)
  have "alias_lmo a0 2 ! k = alias_lmo a0' 2 ! k" if "k \<noteq> 112" for k a0 a0'
    using that by (auto simp: alias_lmo_def alias_head_def nth_append nth_Cons split: nat.splits)
  moreover have "declared_size_byte (alias_lmo 12 2) 112"
    unfolding declared_size_byte_def n by simp
  ultimately show ?thesis
    unfolding differ_only_in_declared_size_def
    by (metis len_alias_lmo len_bytes_def of_nat_eq_iff)
qed

text \<open>
  Claim C9, as stated, fails: offsets in the table are free, so a geometry entry can
  point into the table itself, and then a declared size is also read as a field of
  an object header. The two containers below differ in byte 112 only, the first byte
  of the declared size of entry 8, which the object at offset 0 reads as its
  animation size: 524 passes the size equation, 525 does not.
\<close>

theorem declared_size_aliasing_counterexample:
  "differ_only_in_declared_size (alias_lmo 12 2) (alias_lmo 13 2)
   \<and> parse_lmo_animations (alias_lmo 12 2) = Inr [(0, uv_info)]
   \<and> parse_lmo_animations (alias_lmo 13 2) = Inr []"
  by (simp add: alias_differ alias_parse)

text \<open>
  Claim C9, amended. When every geometry entry points to an object whose size fields
  lie at or after the end of the object table, two containers that differ only in
  declared sizes decode to the same result: the value read from the third field of an
  entry is never used.
\<close>

theorem declared_size_ignored:
  assumes "differ_only_in_declared_size d1 d2" and "objects_beyond_table d1"
  shows "parse_lmo_animations d1 = parse_lmo_animations d2"
proof (cases "len_bytes d1 < 8")
  case True
  then show ?thesis
    using differ_same_len [OF assms(1)] by (simp add: parse_lmo_animations_def)
next
  case False
  then have l2: "\<not> len_bytes d2 < 8" using differ_same_len [OF assms(1)] by simp
  let ?v = "le_uint (take 4 d1)" and ?n = "le_uint (take 4 (drop 4 d1))"
  have hd: "take 4 d2 = take 4 d1" "take 4 (drop 4 d2) = take 4 (drop 4 d1)"
    using differ_head [OF assms(1)] by simp_all
  have loop: "lmo_loop d1 (shape_of_version ?v) (py_range ?n) [] =
              lmo_loop d2 (shape_of_version ?v) (py_range ?n) []"
    by (rule differ_lmo_loop [OF assms]) (simp add: set_py_range)
  show ?thesis
    unfolding parse_lmo_animations_eq [OF False] parse_lmo_animations_eq [OF l2] hd Let_def
    using loop by simp
qed

lemma sample_head_split:
  "sample_head ver d a0 a1 =
     [ver, 0x10, 0, 0,  1, 0, 0, 0,  1, 0, 0, 0,  20, 0, 0, 0] @ [d, d, d, d]
     @ (replicate 100 0
        @ [0, 0, 0, 0,  0, 0, 0, 0,  0, 0, 0, 0,  a0, a1, 0, 0,
           0, 0, 0, 0,  0, 0, 0, 0,  4, 0, 0, 0])"
  by (simp add: sample_head_def)

lemma nth_middle_four:
  "length A = 16 \<Longrightarrow> k < 16 \<or> 20 \<le> k \<Longrightarrow>
   ((A @ [d, d, d, d] @ B) @ C) ! k = ((A @ [d', d', d', d'] @ B) @ C) ! k"
  by (auto simp: nth_append)

lemma sample_differ:
  "differ_only_in_declared_size (sample_lmo ver d a0 a1) (sample_lmo ver d' a0 a1)"
proof -
  have n: "le_uint (take 4 (drop 4 (sample_lmo ver d a0 a1))) = 1"
    by (simp add: sample_lmo_def sample_head_def)
  have same: "sample_lmo ver d a0 a1 ! k = sample_lmo ver d' a0 a1 ! k" if "k < 16 \<or> 20 \<le> k" for k
    unfolding sample_lmo_def sample_head_split by (rule nth_middle_four [OF _ that]) simp
  have "declared_size_byte (sample_lmo ver d a0 a1) k" if "16 \<le> k" "k < 20" for k
  proof -
    have "(k - 8) div 12 = 0" "8 \<le> (k - 8) mod 12" using that by simp_all
    then show ?thesis using that unfolding declared_size_byte_def n by simp
  qed
  then have "\<forall>k\<in>{0..<length (sample_lmo ver d a0 a1)}.
      sample_lmo ver d a0 a1 ! k \<noteq> sample_lmo ver d' a0 a1 ! k \<longrightarrow>
      declared_size_byte (sample_lmo ver d a0 a1) k"
    using same by (metis not_le_imp_less)
  moreover have "length (sample_lmo ver d a0 a1) = length (sample_lmo ver d' a0 a1)"
    by (simp add: sample_lmo_def length_sample_head)
  ultimately show ?thesis unfolding differ_only_in_declared_size_def by blast
qed

lemma sample_beyond: "objects_beyond_table (sample_lmo ver d a0 a1)"
proof -
  have n: "le_uint (take 4 (drop 4 (sample_lmo ver d a0 a1))) = 1"
    by (simp add: sample_lmo_def sample_head_def)
  show ?thesis
    unfolding objects_beyond_table_def n Let_def py_range_1 by (simp add: sample_entry)
qed

theorem declared_size_ignored_witness:
  "differ_only_in_declared_size (sample_lmo 4 0 12 2) (sample_lmo 4 255 12 2)
   \<and> objects_beyond_table (sample_lmo 4 0 12 2)
   \<and> unpack_III (sample_lmo 4 0 12 2) 8 = Inr (OBJ_TYPE_GEOMETRY, 20, 0)
   \<and> unpack_III (sample_lmo 4 255 12 2) 8 = Inr (OBJ_TYPE_GEOMETRY, 20, 4294967295)
   \<and> parse_lmo_animations (sample_lmo 4 0 12 2) = parse_lmo_animations (sample_lmo 4 255 12 2)
   \<and> parse_lmo_animations (sample_lmo 4 0 12 2) = Inr [(0, uv_info)]"
  using declared_size_ignored [OF sample_differ sample_beyond, of 4 0 12 2 255]
  by (simp add: sample_differ sample_beyond sample_entry sample_parse_130)

section \<open>Properties of the sceneobjinfo.bin parser\<close>

lemma unpack_i_ok:
  "0 \<le> off \<Longrightarrow> off + 4 \<le> len_bytes data \<Longrightarrow> \<exists>v. unpack_i data off = Inr v"
  by (simp add: unpack_i_def struct_bytes_ok)

lemma catalog_record_ok:
  assumes "104 \<le> len_bytes chunk"
  shows "\<exists>r. catalog_record decode chunk = Inr r"
proof -
  obtain b where b: "unpack_i chunk 0 = Inr b"
    using unpack_i_ok [of 0 chunk] assms by auto
  have i: "unpack_I chunk 100 = Inr (le_uint (take 4 (drop (nat 100) chunk)))"
    using assms by (intro unpack_I_ok) simp_all
  show ?thesis
    unfolding catalog_record_def b i Let_def by simp
qed

lemma catalog_record_Some_len:
  assumes "catalog_record decode chunk = Inr (Some r)"
  shows "104 \<le> len_bytes chunk"
proof -
  obtain v where "unpack_I chunk 100 = Inr v"
    using assms by (auto simp: catalog_record_def split: sum.splits if_splits)
  then show ?thesis using unpack_I_Inr_len [of chunk 100 v] by simp
qed

lemma py_slice_nonneg:
  "0 \<le> a \<Longrightarrow> a \<le> b \<Longrightarrow> b \<le> int (length xs) \<Longrightarrow>
   py_slice xs a b = take (nat (b - a)) (drop (nat a) xs)"
  by (simp add: py_slice_def Let_def)

lemma length_py_slice:
  "0 \<le> a \<Longrightarrow> a \<le> b \<Longrightarrow> b \<le> int (length xs) \<Longrightarrow> int (length (py_slice xs a b)) = b - a"
  by (simp add: py_slice_nonneg)

lemma chunk_len:
  assumes "0 < entry_size" "0 \<le> i" "i < len_bytes (catalog_body data) div entry_size"
  shows "len_bytes (catalog_chunk data entry_size i) = entry_size"
    and "\<not> i * entry_size + entry_size > len_bytes (catalog_body data)"
proof -
  let ?n = "len_bytes (catalog_body data)"
  have "i + 1 \<le> ?n div entry_size" using assms(3) by simp
  then have "(i + 1) * entry_size \<le> (?n div entry_size) * entry_size"
    using assms(1) by (intro mult_right_mono) simp_all
  also have "\<dots> \<le> ?n"
    using assms(1) by (metis mult.commute pos_mod_sign add_increasing2 mult_div_mod_eq order_refl)
  finally have le: "i * entry_size + entry_size \<le> ?n" by (simp add: algebra_simps)
  then show "\<not> i * entry_size + entry_size > ?n" by simp
  have "0 \<le> i * entry_size" using assms(1,2) by simp
  then show "len_bytes (catalog_chunk data entry_size i) = entry_size"
    using le assms(1) unfolding catalog_chunk_def len_bytes_def
    by (subst length_py_slice) simp_all
qed

lemma catalog_loop_skip:
  assumes "\<forall>i\<in>set is. \<not> i * es + es > len_bytes body
             \<and> (\<exists>r. catalog_record decode (py_slice body (i * es) (i * es + es)) = Inr r)
             \<and> (\<forall>nm. catalog_record decode (py_slice body (i * es) (i * es + es)) \<noteq> Inr (Some (k, nm)))"
  shows "\<exists>res. catalog_loop decode body es is result = Inr res \<and> res k = result k"
  using assms
proof (induction "is" arbitrary: result)
  case Nil
  then show ?case by simp
next
  case (Cons i "is")
  let ?c = "py_slice body (i * es) (i * es + es)"
  obtain r where r: "catalog_record decode ?c = Inr r" using Cons.prems by auto
  have fits: "\<not> i * es + es > len_bytes body" using Cons.prems by simp
  have IH: "\<exists>res. catalog_loop decode body es is result' = Inr res \<and> res k = result' k"
    for result' using Cons.IH Cons.prems by simp
  show ?case
  proof (cases r)
    case None
    then show ?thesis using r fits IH [of result] by (simp add: Let_def)
  next
    case (Some p)
    obtain obj_id nm where p: "p = (obj_id, nm)" by (cases p)
    have "obj_id \<noteq> k" using Cons.prems r Some p by auto
    then show ?thesis
      using r Some p fits IH [of "result(obj_id \<mapsto> nm)"] by (simp add: Let_def)
  qed
qed

lemma catalog_loop_prefix:
  assumes "\<forall>i\<in>set pre. \<not> i * es + es > len_bytes body
             \<and> (\<exists>r. catalog_record decode (py_slice body (i * es) (i * es + es)) = Inr r)"
  shows "\<exists>mid. catalog_loop decode body es (pre @ rest) result =
                catalog_loop decode body es rest mid"
  using assms
proof (induction pre arbitrary: result)
  case Nil
  then show ?case by auto
next
  case (Cons i pre)
  let ?c = "py_slice body (i * es) (i * es + es)"
  obtain r where r: "catalog_record decode ?c = Inr r" using Cons.prems by auto
  have fits: "\<not> i * es + es > len_bytes body" using Cons.prems by simp
  have IH: "\<exists>mid. catalog_loop decode body es (pre @ rest) result' =
                   catalog_loop decode body es rest mid"
    for result' using Cons.IH Cons.prems by simp
  show ?case
  proof (cases r)
    case None
    then show ?thesis using r fits IH [of result] by (simp add: Let_def)
  next
    case (Some p)
    obtain obj_id nm where p: "p = (obj_id, nm)" by (cases p)
    show ?thesis
      using r Some p fits IH [of "result(obj_id \<mapsto> nm)"] by (simp add: Let_def)
  qed
qed

lemma py_range_split:
  assumes "0 \<le> j" "j < n"
  shows "py_range n = py_range j @ j # map int [Suc (nat j)..<nat n]"
proof -
  have "[0..<nat n] = [0..<nat j] @ [nat j..<nat n]"
    using assms by (metis le_add_diff_inverse less_imp_le nat_mono upt_add_eq_append zero_le)
  also have "[nat j..<nat n] = nat j # [Suc (nat j)..<nat n]"
    using assms by (simp add: upt_rec)
  finally show ?thesis using assms by (simp add: py_range_def)
qed

lemma catalog_last_wins:
  assumes es: "0 < es" and j: "0 \<le> j" "j < n"
    and n: "n = len_bytes body div es"
    and rec: "catalog_record decode (py_slice body (j * es) (j * es + es)) = Inr (Some (k, name))"
    and later: "\<forall>i nm. j < i \<and> i < n \<longrightarrow>
        catalog_record decode (py_slice body (i * es) (i * es + es)) \<noteq> Inr (Some (k, nm))"
    and body: "body = catalog_body data"
  shows "\<exists>res. catalog_loop decode body es (py_range n) Map.empty = Inr res \<and> res k = Some name"
proof -
  have chunk: "catalog_chunk data es i = py_slice body (i * es) (i * es + es)" for i
    by (simp add: catalog_chunk_def body)
  have len_j: "len_bytes (py_slice body (j * es) (j * es + es)) = es"
    using chunk_len(1) [OF es j(1), of data] j(2) n body chunk by simp
  have es104: "104 \<le> es"
    using catalog_record_Some_len [OF rec] len_j by simp
  have ok: "\<not> i * es + es > len_bytes body
      \<and> (\<exists>r. catalog_record decode (py_slice body (i * es) (i * es + es)) = Inr r)"
    if "0 \<le> i" "i < n" for i
  proof -
    have "len_bytes (py_slice body (i * es) (i * es + es)) = es"
      using chunk_len(1) [OF es that(1), of data] that(2) n body chunk by simp
    then have "\<exists>r. catalog_record decode (py_slice body (i * es) (i * es + es)) = Inr r"
      using es104 by (intro catalog_record_ok) simp
    moreover have "\<not> i * es + es > len_bytes body"
      using chunk_len(2) [OF es that(1), of data] that(2) n body by simp
    ultimately show ?thesis by simp
  qed
  let ?post = "map int [Suc (nat j)..<nat n]"
  have split: "py_range n = py_range j @ j # ?post" by (rule py_range_split [OF j])
  have "\<forall>i\<in>set (py_range j). \<not> i * es + es > len_bytes body
      \<and> (\<exists>r. catalog_record decode (py_slice body (i * es) (i * es + es)) = Inr r)"
    using ok j by (auto simp: set_py_range)
  then obtain mid where mid: "catalog_loop decode body es (py_range j @ j # ?post) Map.empty =
      catalog_loop decode body es (j # ?post) mid"
    using catalog_loop_prefix by blast
  have fits_j: "\<not> j * es + es > len_bytes body" using ok [OF j] by simp
  have step: "catalog_loop decode body es (j # ?post) mid =
      catalog_loop decode body es ?post (mid(k \<mapsto> name))"
    using fits_j rec by (simp add: Let_def)
  have post: "\<forall>i\<in>set ?post. \<not> i * es + es > len_bytes body
      \<and> (\<exists>r. catalog_record decode (py_slice body (i * es) (i * es + es)) = Inr r)
      \<and> (\<forall>nm. catalog_record decode (py_slice body (i * es) (i * es + es)) \<noteq> Inr (Some (k, nm)))"
  proof
    fix i assume "i \<in> set ?post"
    then have i: "j < i" "i < n" "0 \<le> i" using j by auto
    show "\<not> i * es + es > len_bytes body
      \<and> (\<exists>r. catalog_record decode (py_slice body (i * es) (i * es + es)) = Inr r)
      \<and> (\<forall>nm. catalog_record decode (py_slice body (i * es) (i * es + es)) \<noteq> Inr (Some (k, nm)))"
      using ok [OF i(3,2)] later i(1,2) by simp
  qed
  obtain res where "catalog_loop decode body es ?post (mid(k \<mapsto> name)) = Inr res"
    "res k = (mid(k \<mapsto> name)) k"
    using catalog_loop_skip [OF post] by blast
  then show ?thesis using split mid step by simp
qed

text \<open>
  Claim C8. When record \<open>j\<close> of a catalog is included with identifier \<open>obj_id\<close> and
  name \<open>name\<close>, and no later record is included with the same identifier, the decoded
  catalog maps \<open>obj_id\<close> to \<open>name\<close>, whatever earlier records with that identifier say:
  the last record wins.
\<close>

theorem catalog_last_record_wins:
  assumes "len_bytes data \<ge> 4"
    and "unpack_I data 0 = Inr entry_size" and "entry_size \<noteq> 0"
    and "0 \<le> j" and "j < len_bytes (catalog_body data) div entry_size"
    and "catalog_record decode (catalog_chunk data entry_size j) = Inr (Some (obj_id, name))"
    and "\<forall>i nm. j < i \<and> i < len_bytes (catalog_body data) div entry_size \<longrightarrow>
           catalog_record decode (catalog_chunk data entry_size i) \<noteq> Inr (Some (obj_id, nm))"
  shows "\<exists>result. parse_sceneobjinfo_bin decode data = Inr result \<and> result obj_id = Some name"
proof -
  have "entry_size = le_uint (take 4 (drop (nat 0) data))"
    using assms(1,2) by (simp add: unpack_I_ok)
  then have pos: "0 < entry_size"
    using assms(3) le_uint_nonneg [of "take 4 (drop (nat 0) data)"] by simp
  have p: "parse_sceneobjinfo_bin decode data =
      catalog_loop decode (catalog_body data) entry_size
        (py_range (len_bytes (catalog_body data) div entry_size)) Map.empty"
    using assms(1,2,3) by (simp add: parse_sceneobjinfo_bin_def catalog_body_def Let_def)
  show ?thesis
    unfolding p
    by (rule catalog_last_wins [OF pos assms(4,5) refl _ _ refl])
       (use assms(6,7) in \<open>simp_all add: catalog_chunk_def\<close>)
qed

lemma sample_catalog_facts:
  "len_bytes sample_catalog \<ge> 4"
  "unpack_I sample_catalog 0 = Inr 104"
  "len_bytes (catalog_body sample_catalog) div 104 = 2"
  "catalog_record ascii_decode_strip_lower (catalog_chunk sample_catalog 104 0) = Inr (Some (42, [97]))"
  "catalog_record ascii_decode_strip_lower (catalog_chunk sample_catalog 104 1) = Inr (Some (42, [98]))"
  by code_simp+

theorem catalog_last_record_wins_witness:
  "catalog_record ascii_decode_strip_lower (catalog_chunk sample_catalog 104 0) = Inr (Some (42, [97]))
   \<and> catalog_record ascii_decode_strip_lower (catalog_chunk sample_catalog 104 1) = Inr (Some (42, [98]))
   \<and> (\<exists>result. parse_sceneobjinfo_bin ascii_decode_strip_lower sample_catalog = Inr result
         \<and> result 42 = Some [98])"
proof -
  have "\<exists>result. parse_sceneobjinfo_bin ascii_decode_strip_lower sample_catalog = Inr result
         \<and> result 42 = Some [98]"
  proof (rule catalog_last_record_wins [where j = 1 and entry_size = 104])
    show "\<forall>i nm. 1 < i \<and> i < len_bytes (catalog_body sample_catalog) div 104 \<longrightarrow>
        catalog_record ascii_decode_strip_lower (catalog_chunk sample_catalog 104 i)
          \<noteq> Inr (Some (42, nm))"
      unfolding sample_catalog_facts(3) by (intro allI impI) linarith
  qed (simp_all add: sample_catalog_facts)
  then show ?thesis by (simp add: sample_catalog_facts)
qed

text \<open>
  Claim C1: the catalog decoder does raise. A record width below 104 passes the check
  for a zero width, and the loop then reads the exists flag at offset 0 and the
  identifier at offset 100 of a record that is shorter than the read. On the five
  bytes \<open>01 00 00 00 41\<close> (width 1, one record of one byte) the read of the exists
  flag fails with \<open>struct.error\<close>, which nothing catches.
\<close>

theorem narrow_record_raises:
  "parse_sceneobjinfo_bin decode narrow_catalog = Inl StructError"
  by (simp add: parse_sceneobjinfo_bin_def narrow_catalog_def len_bytes_def unpack_I_def
      struct_bytes_def py_slice_def py_range_def catalog_record_def unpack_i_def Let_def)

section \<open>Properties of the map .obj parser\<close>

lemma unpack_h_ok:
  "0 \<le> off \<Longrightarrow> off + 2 \<le> len_bytes data \<Longrightarrow> \<exists>v. unpack_h data off = Inr v"
  by (simp add: unpack_h_def struct_bytes_ok)

lemma read_section_index_ok:
  "\<forall>s\<in>set ss. 0 \<le> s \<and> 44 + s * 8 + 8 \<le> len_bytes data \<Longrightarrow>
   read_section_index data 44 ss offs cnts =
     Inr (offs @ map (section_offset data) ss, cnts @ map (section_count data) ss)"
proof (induction ss arbitrary: offs cnts)
  case Nil
  then show ?case by simp
next
  case (Cons s ss)
  have s: "0 \<le> s" "44 + s * 8 + 8 \<le> len_bytes data" using Cons.prems by simp_all
  obtain a where a: "unpack_i data (44 + s * 8) = Inr a"
    using unpack_i_ok [of "44 + s * 8" data] s by auto
  obtain b where b: "unpack_i data (44 + s * 8 + 4) = Inr b"
    using unpack_i_ok [of "44 + s * 8 + 4" data] s by auto
  have IH: "read_section_index data 44 ss offs' cnts' =
     Inr (offs' @ map (section_offset data) ss, cnts' @ map (section_count data) ss)"
    for offs' cnts' using Cons.IH Cons.prems by simp
  have so: "section_offset data s = a" unfolding section_offset_def a by simp
  have sc: "section_count data s = b" unfolding section_count_def b by simp
  show ?case
    unfolding read_section_index.simps Let_def a b sum.case IH so [symmetric] sc [symmetric]
    by simp
qed

lemma py_index_map_range:
  assumes "0 \<le> s" "s < n"
  shows "py_index (map f (py_range n)) s = Inr (f s)"
proof -
  have "nat s < nat n" using assms by simp
  then have "[0..<nat n] ! nat s = nat s" by simp
  then show ?thesis using assms by (simp add: py_index_def py_range_def Let_def)
qed

lemma add_placement_eq:
  "unpack_h data entry_off = Inr raw \<Longrightarrow>
   add_placement raw acc =
     (case entry_placement data entry_off of Some p \<Rightarrow> List.insert p acc | None \<Rightarrow> acc)"
  by (simp add: add_placement_def entry_placement_def split: prod.splits)

lemma obj_entries_set:
  assumes "0 < offset" "\<forall>j\<in>set js. 0 \<le> j"
  shows "\<exists>r. obj_entries data offset js acc = Inr r
     \<and> set r = set acc \<union> {p. \<exists>j\<in>set (takeWhile (\<lambda>j. \<not> offset + j * 20 + 20 > len_bytes data) js).
                                entry_placement data (offset + j * 20) = Some p}
     \<and> (distinct acc \<longrightarrow> distinct r)"
  using assms(2)
proof (induction js arbitrary: acc)
  case Nil
  then show ?case by simp
next
  case (Cons j js)
  show ?case
  proof (cases "offset + j * 20 + 20 > len_bytes data")
    case True
    then show ?thesis by simp
  next
    case False
    have j: "0 \<le> j" using Cons.prems by simp
    then have "0 \<le> offset + j * 20" using assms(1) by simp
    then obtain raw where raw: "unpack_h data (offset + j * 20) = Inr raw"
      using unpack_h_ok [of "offset + j * 20" data] False by auto
    let ?acc = "add_placement raw acc"
    have acc: "?acc = (case entry_placement data (offset + j * 20) of
                         Some p \<Rightarrow> List.insert p acc | None \<Rightarrow> acc)"
      by (rule add_placement_eq [OF raw])
    obtain r where r: "obj_entries data offset js ?acc = Inr r"
      and rs: "set r = set ?acc \<union> {p. \<exists>j\<in>set (takeWhile (\<lambda>j. \<not> offset + j * 20 + 20 > len_bytes data) js).
                                entry_placement data (offset + j * 20) = Some p}"
      and rd: "distinct ?acc \<longrightarrow> distinct r"
      using Cons.IH [of ?acc] Cons.prems by auto
    have "obj_entries data offset (j # js) acc = Inr r"
      using False raw r by (simp add: Let_def)
    moreover have "set ?acc = set acc \<union> {p. entry_placement data (offset + j * 20) = Some p}"
      unfolding acc by (auto split: option.splits)
    moreover have "distinct acc \<longrightarrow> distinct ?acc"
      unfolding acc by (auto split: option.splits)
    ultimately show ?thesis using False rs rd by auto
  qed
qed

lemma takeWhile_py_range:
  assumes "\<And>a b. a \<le> b \<Longrightarrow> P b \<Longrightarrow> P a"
  shows "set (takeWhile P (py_range n)) = {j. 0 \<le> j \<and> j < n \<and> P j}"
proof -
  have "set (takeWhile P (map int [0..<m])) = {j. 0 \<le> j \<and> j < int m \<and> P j}" for m
  proof (induction m)
    case 0
    then show ?case by simp
  next
    case (Suc m)
    have aux: "j < int (Suc m) \<longleftrightarrow> j < int m \<or> j = int m" for j by auto
    show ?case
    proof (cases "\<forall>x\<in>set (map int [0..<m]). P x")
      case True
      then have "set (takeWhile P (map int [0..<m])) = set (map int [0..<m])"
        by (simp add: takeWhile_eq_all_conv [THEN iffD2])
      with Suc have eq: "set (map int [0..<m]) = {j. 0 \<le> j \<and> j < int m \<and> P j}" by simp
      have "set (takeWhile P (map int [0..<Suc m])) =
          set (map int [0..<m]) \<union> (if P (int m) then {int m} else {})"
        using True by (simp add: takeWhile_append)
      also have "\<dots> = {j. 0 \<le> j \<and> (j < int m \<or> j = int m) \<and> P j}"
        unfolding eq by auto
      also have "\<dots> = {j. 0 \<le> j \<and> j < int (Suc m) \<and> P j}"
        by (simp only: aux)
      finally show ?thesis .
    next
      case False
      then obtain x where x: "x \<in> set (map int [0..<m])" "\<not> P x" by blast
      then have "x \<le> int m" by auto
      then have nP: "\<not> P (int m)" using assms x(2) by blast
      have app: "map int [0..<Suc m] = map int [0..<m] @ [int m]" by simp
      have "set (takeWhile P (map int [0..<Suc m])) = set (takeWhile P (map int [0..<m]))"
        unfolding app takeWhile_append1 [of x "map int [0..<m]" P, OF x] by (rule refl)
      also have "\<dots> = {j. 0 \<le> j \<and> j < int m \<and> P j}" by (rule Suc)
      also have "\<dots> = {j. 0 \<le> j \<and> (j < int m \<or> j = int m) \<and> P j}"
        using nP by auto
      also have "\<dots> = {j. 0 \<le> j \<and> j < int (Suc m) \<and> P j}"
        by (simp only: aux)
      finally show ?thesis .
    qed
  qed
  then have "set (takeWhile P (py_range n)) = {j. 0 \<le> j \<and> j < int (nat n) \<and> P j}"
    unfolding py_range_def .
  also have "\<dots> = {j. 0 \<le> j \<and> j < n \<and> P j}" by auto
  finally show ?thesis .
qed

lemma slot_placement_set:
  assumes "\<not> (section_count data s \<le> 0 \<or> section_offset data s \<le> 0)"
  shows "{p. \<exists>j. slot_placement data s j = Some p} =
     {p. \<exists>j. 0 \<le> j \<and> j < section_count data s
            \<and> \<not> section_offset data s + j * 20 + 20 > len_bytes data
            \<and> entry_placement data (section_offset data s + j * 20) = Some p}"
proof -
  have "slot_placement data s j = Some p \<longleftrightarrow>
      0 \<le> j \<and> j < section_count data s
      \<and> \<not> section_offset data s + j * 20 + 20 > len_bytes data
      \<and> entry_placement data (section_offset data s + j * 20) = Some p" for j p
    using assms unfolding slot_placement_def Let_def by (simp add: not_le not_less)
  then show ?thesis by simp
qed

lemma slot_placement_none:
  "section_count data s \<le> 0 \<or> section_offset data s \<le> 0 \<Longrightarrow> slot_placement data s j = None"
  by (simp add: slot_placement_def Let_def)

lemma obj_section_step:
  assumes "0 < offset" "0 < count"
  shows "\<exists>r. obj_entries data offset (py_range count) acc = Inr r
     \<and> set r = set acc \<union> {p. \<exists>j. 0 \<le> j \<and> j < count \<and> \<not> offset + j * 20 + 20 > len_bytes data
                               \<and> entry_placement data (offset + j * 20) = Some p}
     \<and> (distinct acc \<longrightarrow> distinct r)"
proof -
  let ?P = "\<lambda>j. \<not> offset + j * 20 + 20 > len_bytes data"
  have tw: "set (takeWhile ?P (py_range count)) = {j. 0 \<le> j \<and> j < count \<and> ?P j}"
    by (rule takeWhile_py_range) simp
  obtain r where r: "obj_entries data offset (py_range count) acc = Inr r"
    and rs: "set r = set acc \<union> {p. \<exists>j\<in>set (takeWhile ?P (py_range count)).
                                entry_placement data (offset + j * 20) = Some p}"
    and rd: "distinct acc \<longrightarrow> distinct r"
    using obj_entries_set [OF assms(1), of "py_range count" data acc]
    by (auto simp: set_py_range)
  have "{p. \<exists>j\<in>set (takeWhile ?P (py_range count)). entry_placement data (offset + j * 20) = Some p}
      = {p. \<exists>j. 0 \<le> j \<and> j < count \<and> ?P j \<and> entry_placement data (offset + j * 20) = Some p}"
    unfolding tw by blast
  with r rs rd show ?thesis by simp
qed

lemma obj_sections_set:
  assumes offs: "offs = map (section_offset data) (py_range n)"
    and cnts: "cnts = map (section_count data) (py_range n)"
  shows "\<forall>s\<in>set ss. 0 \<le> s \<and> s < n \<Longrightarrow>
     \<exists>r. obj_sections data offs cnts ss acc = Inr r
       \<and> set r = set acc \<union> {p. \<exists>s\<in>set ss. \<exists>j. slot_placement data s j = Some p}
       \<and> (distinct acc \<longrightarrow> distinct r)"
proof (induction ss arbitrary: acc)
  case Nil
  then show ?case by simp
next
  case (Cons s ss)
  have s: "0 \<le> s" "s < n" using Cons.prems by simp_all
  have ic: "py_index cnts s = Inr (section_count data s)"
    unfolding cnts by (rule py_index_map_range [OF s])
  have io: "py_index offs s = Inr (section_offset data s)"
    unfolding offs by (rule py_index_map_range [OF s])
  have IH: "\<exists>r. obj_sections data offs cnts ss acc' = Inr r
       \<and> set r = set acc' \<union> {p. \<exists>s\<in>set ss. \<exists>j. slot_placement data s j = Some p}
       \<and> (distinct acc' \<longrightarrow> distinct r)" for acc'
    using Cons.IH Cons.prems by simp
  show ?case
  proof (cases "section_count data s \<le> 0 \<or> section_offset data s \<le> 0")
    case True
    have none: "{p. \<exists>j. slot_placement data s j = Some p} = {}"
      using slot_placement_none [OF True] by simp
    obtain r where r: "obj_sections data offs cnts ss acc = Inr r"
      "set r = set acc \<union> {p. \<exists>s\<in>set ss. \<exists>j. slot_placement data s j = Some p}"
      "distinct acc \<longrightarrow> distinct r"
      using IH [of acc] by blast
    have "obj_sections data offs cnts (s # ss) acc = Inr r"
      using True r(1) by (simp add: ic io)
    moreover have "{p. \<exists>s'\<in>set (s # ss). \<exists>j. slot_placement data s' j = Some p}
        = {p. \<exists>s\<in>set ss. \<exists>j. slot_placement data s j = Some p}"
      using none by auto
    ultimately show ?thesis using r(2,3) by simp
  next
    case False
    then have pos: "0 < section_offset data s" "0 < section_count data s" by simp_all
    obtain r1 where r1: "obj_entries data (section_offset data s) (py_range (section_count data s)) acc = Inr r1"
      and s1: "set r1 = set acc \<union> {p. \<exists>j. slot_placement data s j = Some p}"
      and d1: "distinct acc \<longrightarrow> distinct r1"
      using obj_section_step [OF pos, of data acc] unfolding slot_placement_set [OF False] by blast
    obtain r where r: "obj_sections data offs cnts ss r1 = Inr r"
      "set r = set r1 \<union> {p. \<exists>s\<in>set ss. \<exists>j. slot_placement data s j = Some p}"
      "distinct r1 \<longrightarrow> distinct r"
      using IH [of r1] by blast
    have "obj_sections data offs cnts (s # ss) acc = Inr r"
      using False r1 r(1) by (simp add: ic io)
    moreover have "set r = set acc \<union> {p. \<exists>s'\<in>set (s # ss). \<exists>j. slot_placement data s' j = Some p}"
      unfolding r(2) s1 by auto
    ultimately show ?thesis using r(3) d1 by simp
  qed
qed

lemma parse_obj_file_rejected:
  assumes "\<not> obj_header_ok data"
  shows "parse_obj_file data = Inr []"
proof (cases "len_bytes data < 44")
  case True
  then show ?thesis by (simp add: parse_obj_file_def)
next
  case False
  obtain v where v: "unpack_i data 16 = Inr v" using unpack_i_ok [of 16 data] False by auto
  obtain x where x: "unpack_i data 24 = Inr x" using unpack_i_ok [of 24 data] False by auto
  obtain y where y: "unpack_i data 28 = Inr y" using unpack_i_ok [of 28 data] False by auto
  have c: "obj_section_cnt data = x * y" by (simp add: obj_section_cnt_def x y)
  have "v \<noteq> 600 \<or> 44 + x * y * 8 > len_bytes data"
    using assms False v c by (auto simp: obj_header_ok_def)
  then show ?thesis
    using False by (auto simp: parse_obj_file_def v x y Let_def)
qed

lemma parse_obj_file_accepted:
  assumes "obj_header_ok data"
  shows "\<exists>ps. parse_obj_file data = Inr ps \<and> distinct ps \<and> set ps = placed_pairs data"
proof -
  have len: "\<not> len_bytes data < 44" and v: "unpack_i data 16 = Inr 600"
    using assms by (simp_all add: obj_header_ok_def)
  obtain x where x: "unpack_i data 24 = Inr x" using unpack_i_ok [of 24 data] len by auto
  obtain y where y: "unpack_i data 28 = Inr y" using unpack_i_ok [of 28 data] len by auto
  have c: "obj_section_cnt data = x * y" by (simp add: obj_section_cnt_def x y)
  have fit: "\<not> 44 + x * y * 8 > len_bytes data"
    using assms c by (simp add: obj_header_ok_def)
  let ?n = "x * y"
  have idx: "read_section_index data 44 (py_range ?n) [] [] =
      Inr ([] @ map (section_offset data) (py_range ?n), [] @ map (section_count data) (py_range ?n))"
    by (rule read_section_index_ok) (use fit in \<open>auto simp: set_py_range\<close>)
  obtain r where r: "obj_sections data (map (section_offset data) (py_range ?n))
        (map (section_count data) (py_range ?n)) (py_range ?n) [] = Inr r"
    and rs: "set r = set [] \<union> {p. \<exists>s\<in>set (py_range ?n). \<exists>j. slot_placement data s j = Some p}"
    and rd: "distinct [] \<longrightarrow> distinct r"
    using obj_sections_set [OF refl refl, of "py_range ?n" ?n data "[]"]
    by (auto simp: set_py_range)
  have "parse_obj_file data = Inr r"
    using len fit idx r by (simp add: parse_obj_file_def v x y Let_def)
  moreover have "set r = placed_pairs data"
    unfolding rs placed_pairs_def c by (auto simp: set_py_range)
  ultimately show ?thesis using rd by simp
qed

lemma count_list_distinct:
  "distinct xs \<Longrightarrow> x \<in> set xs \<Longrightarrow> count_list xs x = 1"
  by (induction xs) (auto simp: count_list_0_iff)

text \<open>
  Claim C7. The placement decoder returns without raising, and its result holds no
  pair twice. When the header passes the checks, the result holds exactly the pairs
  that some slot of some section places, so a pair placed by several slots, in one
  section or in different ones, is in the result exactly once; otherwise the result
  is empty.
\<close>

theorem placements_deduplicated:
  "\<exists>ps. parse_obj_file data = Inr ps \<and> distinct ps
     \<and> (if obj_header_ok data then set ps = placed_pairs data else ps = [])
     \<and> (obj_header_ok data \<longrightarrow>
          (\<forall>p s j. 0 \<le> s \<and> s < obj_section_cnt data \<and> slot_placement data s j = Some p
             \<longrightarrow> count_list ps p = 1))"
proof (cases "obj_header_ok data")
  case False
  then show ?thesis using parse_obj_file_rejected [OF False] by simp
next
  case True
  obtain ps where ps: "parse_obj_file data = Inr ps" "distinct ps" "set ps = placed_pairs data"
    using parse_obj_file_accepted [OF True] by blast
  have "count_list ps p = 1"
    if "0 \<le> s \<and> s < obj_section_cnt data \<and> slot_placement data s j = Some p" for p s j
  proof -
    have "p \<in> placed_pairs data" using that unfolding placed_pairs_def by blast
    then show ?thesis using ps(2,3) by (intro count_list_distinct) simp_all
  qed
  then show ?thesis using True ps by auto
qed

lemma sample_map_facts:
  "obj_header_ok sample_map"
  "obj_section_cnt sample_map = 2"
  "slot_placement sample_map 0 0 = Some (0, 42)"
  "slot_placement sample_map 1 0 = Some (0, 42)"
  "slot_placement sample_map 1 1 = Some (1, 7)"
  "parse_obj_file sample_map = Inr [(1, 7), (0, 42)]"
  by code_simp+

theorem placements_deduplicated_witness:
  "obj_header_ok sample_map
   \<and> slot_placement sample_map 0 0 = Some (0, 42)
   \<and> slot_placement sample_map 1 0 = Some (0, 42)
   \<and> parse_obj_file sample_map = Inr [(1, 7), (0, 42)]
   \<and> count_list [(1, 7), (0, 42)] (0 :: int, 42 :: int) = 1"
proof -
  obtain ps where ps: "parse_obj_file sample_map = Inr ps"
    and c: "obj_header_ok sample_map \<longrightarrow>
          (\<forall>p s j. 0 \<le> s \<and> s < obj_section_cnt sample_map \<and> slot_placement sample_map s j = Some p
             \<longrightarrow> count_list ps p = 1)"
    using placements_deduplicated [of sample_map] by blast
  have "ps = [(1, 7), (0, 42)]" using ps by (simp add: sample_map_facts)
  moreover have "count_list ps (0, 42) = 1"
  proof -
    from c sample_map_facts(1)
    have a: "\<forall>p s j. 0 \<le> s \<and> s < obj_section_cnt sample_map
        \<and> slot_placement sample_map s j = Some p \<longrightarrow> count_list ps p = 1"
      by blast
    have "0 \<le> (1::int) \<and> 1 < obj_section_cnt sample_map
        \<and> slot_placement sample_map 1 0 = Some (0, 42)"
      by (simp add: sample_map_facts)
    with a show ?thesis by blast
  qed
  ultimately show ?thesis by (simp add: sample_map_facts)
qed

lemma and_ffff: "(x::int) AND 0xFFFF = x mod 65536"
  using take_bit_eq_mask [of 16 x] by (simp add: take_bit_eq_mod mask_eq_exp_minus_1)

lemma le_uint_two:
  assumes "0 \<le> v" "v < 65536"
  shows "le_uint [word_of_int v, word_of_int (v div 256)] = v"
proof -
  have "uint (word_of_int v :: byte) = v mod 256"
    by (simp add: uint_word_of_int take_bit_eq_mod)
  moreover have "uint (word_of_int (v div 256) :: byte) = (v div 256) mod 256"
    by (simp add: uint_word_of_int take_bit_eq_mod)
  moreover have "(v div 256) mod 256 = v div 256" using assms by simp
  ultimately show ?thesis by simp
qed

lemma unpack_h_two:
  assumes "0 \<le> v" "v < 65536"
  shows "unpack_h [word_of_int v, word_of_int (v div 256)] 0 =
           Inr (if v < 32768 then v else v - 65536)"
  by (simp add: unpack_h_def struct_bytes_def len_bytes_def Let_def le_uint_two [OF assms]
      del: le_uint.simps)

lemma split_type_id_signed:
  assumes "0 \<le> v" "v < 65536"
  shows "split_type_id (if v < 32768 then v else v - 65536) = (drop_bit 14 v, v AND 0x3FFF)"
proof -
  have "(if v < 32768 then v else v - 65536) mod 65536 = v"
    using assms by auto
  then show ?thesis by (simp add: split_type_id_def Let_def and_ffff)
qed

lemma and_3fff_bounds: "0 \<le> (x::int) AND 0x3FFF" "(x::int) AND 0x3FFF \<le> 16383"
proof -
  show "0 \<le> x AND 0x3FFF" by simp
  show "x AND 0x3FFF \<le> 16383" using AND_upper2 [of 16383 x] by simp
qed

lemma split_type_id_bounds:
  assumes "split_type_id raw = (obj_type, obj_id)"
  shows "0 \<le> obj_id" "obj_id \<le> 16383" "0 \<le> obj_type"
proof -
  have i: "obj_id = (raw AND 0xFFFF) AND 0x3FFF" and t: "obj_type = drop_bit 14 (raw AND 0xFFFF)"
    using assms by (simp_all add: split_type_id_def Let_def)
  show "0 \<le> obj_id" "obj_id \<le> 16383" unfolding i by (rule and_3fff_bounds)+
  show "0 \<le> obj_type" unfolding t by simp
qed

lemma entry_placement_bounds:
  assumes "entry_placement data off = Some (obj_type, obj_id)"
  shows "0 < obj_id \<and> obj_id \<le> 16383 \<and> (obj_type = 0 \<or> obj_type = 1)"
proof -
  obtain raw where s: "split_type_id raw = (obj_type, obj_id)" and k: "obj_id > 0" "obj_type \<le> 1"
    using assms by (auto simp: entry_placement_def split: sum.splits prod.splits if_splits)
  from split_type_id_bounds [OF s] k show ?thesis by auto
qed

lemma parse_obj_file_bounds:
  assumes "parse_obj_file data = Inr ps" "(obj_type, obj_id) \<in> set ps"
  shows "0 < obj_id \<and> obj_id \<le> 16383 \<and> (obj_type = 0 \<or> obj_type = 1)"
proof (cases "obj_header_ok data")
  case False
  then show ?thesis using parse_obj_file_rejected [OF False] assms by simp
next
  case True
  then have "set ps = placed_pairs data" using parse_obj_file_accepted [OF True] assms(1) by auto
  then obtain s j where "slot_placement data s j = Some (obj_type, obj_id)"
    using assms(2) by (auto simp: placed_pairs_def)
  then obtain off where "entry_placement data off = Some (obj_type, obj_id)"
    by (auto simp: slot_placement_def Let_def split: if_splits)
  then show ?thesis by (rule entry_placement_bounds)
qed

text \<open>
  Claim C6. For every 16-bit value \<open>v\<close>, stored little-endian and read as the signed
  16-bit \<open>raw_type_id\<close>, the decoder takes kind \<open>v >> 14\<close> and identifier \<open>v & 0x3FFF\<close>,
  which lies between 0 and 16383; the pair is added to the placement set exactly when
  the identifier is positive and the kind is 0 or 1, so an identifier of 0 is never
  added; every pair that the decoder returns for a file has an identifier between 1
  and 16383 and kind 0 or 1.
\<close>

theorem packed_field_split:
  assumes "0 \<le> v" and "v < 65536"
  shows "\<exists>raw. unpack_h [word_of_int v, word_of_int (v div 256)] 0 = Inr raw
     \<and> split_type_id raw = (drop_bit 14 v, v AND 0x3FFF)
     \<and> 0 \<le> v AND 0x3FFF \<and> v AND 0x3FFF \<le> 16383
     \<and> add_placement raw placements =
          (if v AND 0x3FFF > 0 \<and> (drop_bit 14 v = 0 \<or> drop_bit 14 v = 1)
           then List.insert (drop_bit 14 v, v AND 0x3FFF) placements else placements)
     \<and> (v AND 0x3FFF = 0 \<longrightarrow> add_placement raw placements = placements)
     \<and> (\<forall>ps. parse_obj_file data = Inr ps \<longrightarrow>
          (\<forall>(obj_type, obj_id)\<in>set ps.
             0 < obj_id \<and> obj_id \<le> 16383 \<and> (obj_type = 0 \<or> obj_type = 1)))"
proof -
  let ?raw = "if v < 32768 then v else v - 65536"
  have u: "unpack_h [word_of_int v, word_of_int (v div 256)] 0 = Inr ?raw"
    by (rule unpack_h_two [OF assms])
  have s: "split_type_id ?raw = (drop_bit 14 v, v AND 0x3FFF)"
    by (rule split_type_id_signed [OF assms])
  have d: "drop_bit 14 v = v div 16384" by (simp add: drop_bit_eq_div)
  have t0: "0 \<le> v div 16384" using assms(1) by simp
  have t: "drop_bit 14 v \<le> 1 \<longleftrightarrow> drop_bit 14 v = 0 \<or> drop_bit 14 v = 1"
    unfolding d using t0 by linarith
  have a: "add_placement ?raw placements =
          (if v AND 0x3FFF > 0 \<and> (drop_bit 14 v = 0 \<or> drop_bit 14 v = 1)
           then List.insert (drop_bit 14 v, v AND 0x3FFF) placements else placements)"
    unfolding add_placement_def s prod.case t by (rule refl)
  have z: "v AND 0x3FFF = 0 \<longrightarrow> add_placement ?raw placements = placements"
    unfolding a by simp
  have b: "\<forall>ps. parse_obj_file data = Inr ps \<longrightarrow>
          (\<forall>(obj_type, obj_id)\<in>set ps.
             0 < obj_id \<and> obj_id \<le> 16383 \<and> (obj_type = 0 \<or> obj_type = 1))"
    using parse_obj_file_bounds [of data] by blast
  show ?thesis
    using u s a z b and_3fff_bounds [of v] by blast
qed

theorem packed_field_split_witness:
  "unpack_h [7, 0x40] 0 = Inr 16391
   \<and> split_type_id 16391 = (1, 7)
   \<and> add_placement 16391 [] = [(1, 7)]
   \<and> unpack_h [0x2A, 0xC0] 0 = Inr (- 16342)
   \<and> split_type_id (- 16342) = (3, 42)
   \<and> add_placement (- 16342) [(1, 7)] = [(1, 7)]
   \<and> unpack_h [0, 0x40] 0 = Inr 16384
   \<and> split_type_id 16384 = (1, 0)
   \<and> add_placement 16384 [(1, 7)] = [(1, 7)]"
proof -
  have w: "(word_of_int 16391 :: byte) = 7" "(word_of_int (16391 div 256) :: byte) = 0x40"
    "(word_of_int 49194 :: byte) = 0x2A" "(word_of_int (49194 div 256) :: byte) = 0xC0"
    "(word_of_int 16384 :: byte) = 0" "(word_of_int (16384 div 256) :: byte) = 0x40"
    by simp_all
  have v: "drop_bit 14 (16391 :: int) = 1" "(16391 :: int) AND 0x3FFF = 7"
    "drop_bit 14 (49194 :: int) = 3" "(49194 :: int) AND 0x3FFF = 42"
    "drop_bit 14 (16384 :: int) = 1" "(16384 :: int) AND 0x3FFF = 0"
    by simp_all
  have u: "unpack_h [7, 0x40] 0 = Inr 16391" "unpack_h [0x2A, 0xC0] 0 = Inr (- 16342)"
    "unpack_h [0, 0x40] 0 = Inr 16384"
    by (simp_all add: unpack_h_def struct_bytes_def len_bytes_def)
  show ?thesis
    using packed_field_split [of 16391 "[]" "[]"] packed_field_split [of 49194 "[(1, 7)]" "[]"]
      packed_field_split [of 16384 "[(1, 7)]" "[]"]
    unfolding w v u by simp
qed

end
